theory Spec2Isabelle
  imports Complex_Main "HOL-Library.AList"
begin

section \<open>The FPC voter of goshimmer (package fpc)\<close>

text \<open>
  A shallow embedding of \<^verbatim>\<open>packages/vote/fpc/fpc.go\<close>: the admission queue, the registry
  of vote contexts, the round engine, the query and aggregation pipeline and the two samplers.
  Mutation is explicit state passing on the record \<open>FPC\<close>; a Go \<^verbatim>\<open>map\<close> is an association
  list with distinct keys, read with \<open>map_of\<close> and written with the operations of
  \<open>AList\<close>; a \<^verbatim>\<open>range\<close> loop over a map runs in the order of that list (Go leaves the
  order open; the general statements below hold for every list). Events are appended to a log.
  Locks, the query deadline and the duration of a round are outside the model.
\<close>

subsection \<open>float64\<close>

text \<open>
  Values of type \<^verbatim>\<open>float64\<close> are reals extended by the two infinities and NaN, so that a
  division by zero and a comparison with NaN are what Go computes. Rounding and the sign of
  zero are not modelled.
\<close>

datatype float64 = Fin real | PInf | NInf | NaN

fun fneg :: "float64 \<Rightarrow> float64" where
  "fneg (Fin x) = Fin (- x)"
| "fneg PInf = NInf"
| "fneg NInf = PInf"
| "fneg NaN = NaN"

fun fadd :: "float64 \<Rightarrow> float64 \<Rightarrow> float64" where
  "fadd NaN b = NaN"
| "fadd a NaN = NaN"
| "fadd (Fin x) (Fin y) = Fin (x + y)"
| "fadd PInf NInf = NaN"
| "fadd NInf PInf = NaN"
| "fadd PInf b = PInf"
| "fadd a PInf = PInf"
| "fadd NInf b = NInf"
| "fadd a NInf = NInf"

definition fsub :: "float64 \<Rightarrow> float64 \<Rightarrow> float64" where
  "fsub a b = fadd a (fneg b)"

fun fmul :: "float64 \<Rightarrow> float64 \<Rightarrow> float64" where
  "fmul NaN b = NaN"
| "fmul a NaN = NaN"
| "fmul (Fin x) (Fin y) = Fin (x * y)"
| "fmul (Fin x) PInf = (if x = 0 then NaN else if 0 < x then PInf else NInf)"
| "fmul (Fin x) NInf = (if x = 0 then NaN else if 0 < x then NInf else PInf)"
| "fmul PInf (Fin y) = (if y = 0 then NaN else if 0 < y then PInf else NInf)"
| "fmul NInf (Fin y) = (if y = 0 then NaN else if 0 < y then NInf else PInf)"
| "fmul PInf PInf = PInf"
| "fmul PInf NInf = NInf"
| "fmul NInf PInf = NInf"
| "fmul NInf NInf = PInf"

fun fdiv :: "float64 \<Rightarrow> float64 \<Rightarrow> float64" where
  "fdiv NaN b = NaN"
| "fdiv a NaN = NaN"
| "fdiv (Fin x) (Fin y) =
     (if y = 0 then (if x = 0 then NaN else if 0 < x then PInf else NInf) else Fin (x / y))"
| "fdiv (Fin x) PInf = Fin 0"
| "fdiv (Fin x) NInf = Fin 0"
| "fdiv PInf (Fin y) = (if 0 \<le> y then PInf else NInf)"
| "fdiv NInf (Fin y) = (if 0 \<le> y then NInf else PInf)"
| "fdiv PInf b = NaN"
| "fdiv NInf b = NaN"

fun flt :: "float64 \<Rightarrow> float64 \<Rightarrow> bool" where
  "flt NaN b = False"
| "flt a NaN = False"
| "flt (Fin x) (Fin y) = (x < y)"
| "flt a NInf = False"
| "flt PInf b = False"
| "flt NInf b = True"
| "flt a PInf = True"

fun feq :: "float64 \<Rightarrow> float64 \<Rightarrow> bool" where
  "feq NaN b = False"
| "feq a NaN = False"
| "feq a b = (a = b)"

definition fle :: "float64 \<Rightarrow> float64 \<Rightarrow> bool" where
  "fle a b = (flt a b \<or> feq a b)"

definition fge :: "float64 \<Rightarrow> float64 \<Rightarrow> bool" where
  "fge a b = fle b a"

fun fabs :: "float64 \<Rightarrow> float64" where
  "fabs (Fin x) = Fin \<bar>x\<bar>"
| "fabs PInf = PInf"
| "fabs NInf = PInf"
| "fabs NaN = NaN"

definition toleranceTotalMana :: float64 where
  "toleranceTotalMana = Fin (1 / 1000)"

subsection \<open>Errors\<close>

text \<open>
  The two sentinel errors of the package, \<^verbatim>\<open>vote.ErrVotingNotFound\<close>, the errors that the
  collaborators (supplier, own-weight retriever, \<^verbatim>\<open>Query\<close>) return, and a run-time panic.
  \<^verbatim>\<open>fmt.Errorf("%w: %s", e, id)\<close> is the constructor applied to the id.
\<close>

datatype error =
    ErrVoteAlreadyOngoing string
  | ErrVotingNotFound string
  | ErrNoOpinionGiversAvailable
  | ExternalError string
  | Panic string

subsection \<open>Opinions and vote contexts (packages vote and opinion)\<close>

datatype opinion = Like | Dislike | Unknown

datatype ObjectType = ConflictType | TimestampType

record VotingWeights =
  OwnWeight :: float64
  TotalWeights :: float64

record Context =
  ID :: string
  Type :: ObjectType
  ProportionLiked :: float64
  Rounds :: int
  Opinions :: "opinion list"
  Weights :: VotingWeights

text \<open>Modelled from the spec: \<^verbatim>\<open>vote.NewContext\<close> (package vote is not among the sources). A
  context is seeded with the initial opinion, zero rounds, liked proportion 0 and weights (0, 0).\<close>

definition NewContext :: "string \<Rightarrow> ObjectType \<Rightarrow> opinion \<Rightarrow> Context" where
  "NewContext vid objectType initOpn =
     \<lparr>ID = vid, Type = objectType, ProportionLiked = Fin 0, Rounds = 0,
      Opinions = [initOpn], Weights = \<lparr>OwnWeight = Fin 0, TotalWeights = Fin 0\<rparr>\<rparr>"

text \<open>Modelled from the spec: \<^verbatim>\<open>Context.LastOpinion\<close>; \<open>opinions\<close> is a non-empty sequence
  and its last element is the current opinion.\<close>

definition LastOpinion :: "Context \<Rightarrow> opinion" where
  "LastOpinion voteCtx = last (Opinions voteCtx)"

text \<open>Modelled from the spec: \<^verbatim>\<open>Context.AddOpinion\<close> appends to the opinion history.\<close>

definition AddOpinion :: "Context \<Rightarrow> opinion \<Rightarrow> Context" where
  "AddOpinion voteCtx opn = voteCtx\<lparr>Opinions := Opinions voteCtx @ [opn]\<rparr>"

text \<open>Modelled from the spec: \<^verbatim>\<open>Context.IsNew\<close> holds when no round has ticked yet.\<close>

definition IsNew :: "Context \<Rightarrow> bool" where
  "IsNew voteCtx = (Rounds voteCtx = 0)"

text \<open>Modelled from the spec: \<^verbatim>\<open>Context.HadFirstRound\<close> holds when \<open>rounds = cooldown + 1\<close>.
  The call in \<^verbatim>\<open>setThreshold\<close> passes no argument; the model hands it the cooling-off period
  of the engine's parameters.\<close>

definition HadFirstRound :: "int \<Rightarrow> Context \<Rightarrow> bool" where
  "HadFirstRound coolingOffPeriod voteCtx = (Rounds voteCtx = coolingOffPeriod + 1)"

text \<open>Modelled from the spec: \<^verbatim>\<open>Context.HadFixedRound\<close> holds when
  \<open>rounds > cooldown + finalization + fixed\<close>.\<close>

definition HadFixedRound :: "int \<Rightarrow> int \<Rightarrow> int \<Rightarrow> Context \<Rightarrow> bool" where
  "HadFixedRound coolingOffPeriod totalRoundsFinalization totalRoundsFixed voteCtx =
     (Rounds voteCtx > coolingOffPeriod + totalRoundsFinalization + totalRoundsFixed)"

text \<open>Modelled from the spec: \<^verbatim>\<open>Context.IsFinalized\<close> holds when
  \<open>rounds - cooldown \<ge> finalization\<close>, the last \<open>finalization\<close> opinions exist and are
  identical, and none of them is \<open>Unknown\<close>.\<close>

definition IsFinalized :: "int \<Rightarrow> int \<Rightarrow> Context \<Rightarrow> bool" where
  "IsFinalized coolingOffPeriod totalRoundsFinalization voteCtx =
     (let held = drop (length (Opinions voteCtx) - nat totalRoundsFinalization) (Opinions voteCtx)
      in Rounds voteCtx - coolingOffPeriod \<ge> totalRoundsFinalization
         \<and> int (length (Opinions voteCtx)) \<ge> totalRoundsFinalization
         \<and> list_all (\<lambda>opn. opn = LastOpinion voteCtx) held
         \<and> list_all (\<lambda>opn. opn \<noteq> Unknown) held)"

text \<open>Modelled from the spec: \<^verbatim>\<open>opinion.ConvertOpinionToFloat64\<close> encodes \<open>Like\<close> as 1.0,
  \<open>Dislike\<close> as 0.0 and \<open>Unknown\<close> as a negative scalar.\<close>

fun ConvertOpinionToFloat64 :: "opinion \<Rightarrow> float64" where
  "ConvertOpinionToFloat64 Like = Fin 1"
| "ConvertOpinionToFloat64 Dislike = Fin 0"
| "ConvertOpinionToFloat64 Unknown = Fin (- 1)"

text \<open>Modelled from the spec: \<^verbatim>\<open>RandUniformThreshold\<close> draws the threshold
  \<open>T = lower + r * (upper - lower)\<close>.\<close>

definition RandUniformThreshold :: "float64 \<Rightarrow> float64 \<Rightarrow> float64 \<Rightarrow> float64" where
  "RandUniformThreshold rand lowerThreshold upperThreshold =
     fadd lowerThreshold (fmul rand (fsub upperThreshold lowerThreshold))"

subsection \<open>Opinion givers, the random source, parameters, events\<close>

text \<open>
  An \<^verbatim>\<open>opinion.OpinionGiver\<close> is the record of its three methods; \<^verbatim>\<open>Query\<close> answers with an
  error or a list of opinions (the context argument carries only the deadline).
\<close>

record OpinionGiver =
  ID_giver :: string
  Mana :: float64
  Query :: "string list \<Rightarrow> string list \<Rightarrow> error + opinion list"

text \<open>
  The generator behind \<^verbatim>\<open>*rand.Rand\<close> is not part of the sources: the model takes the
  sequence of its outputs as given and keeps a cursor into it. \<^verbatim>\<open>Float64\<close> yields the next
  value, \<^verbatim>\<open>Intn n\<close> the next value reduced to \<open>[0, n)\<close> and panics for \<open>n \<le> 0\<close>.
\<close>

record Rand =
  float_draws :: "nat \<Rightarrow> real"
  int_draws :: "nat \<Rightarrow> nat"
  cursor :: nat

definition Float64 :: "Rand \<Rightarrow> float64 \<times> Rand" where
  "Float64 rng = (Fin (float_draws rng (cursor rng)), rng\<lparr>cursor := Suc (cursor rng)\<rparr>)"

definition Intn :: "Rand \<Rightarrow> int \<Rightarrow> error + (int \<times> Rand)" where
  "Intn rng n =
     (if n \<le> 0 then Inl (Panic ''invalid argument to Intn'')
      else Inr (int (int_draws rng (cursor rng)) mod n, rng\<lparr>cursor := Suc (cursor rng)\<rparr>))"

record Parameters =
  FirstRoundLowerBoundThreshold :: float64
  FirstRoundUpperBoundThreshold :: float64
  SubsequentRoundsLowerBoundThreshold :: float64
  SubsequentRoundsUpperBoundThreshold :: float64
  EndingRoundsFixedThreshold :: float64
  QuerySampleSize :: int
  MaxQuerySampleSize :: int
  MinOpinionsReceived :: int
  TotalRoundsFinalization :: int
  TotalRoundsCoolingOffPeriod :: int
  TotalRoundsFixedThreshold :: int
  MaxRoundsPerVoteContext :: int

record QueriedOpinions =
  OpinionGiverID :: string
  Opinions_queried :: "(string \<times> opinion) list"
  TimesCounted :: int

record RoundStats =
  RandUsed :: float64
  ActiveVoteContexts :: "(string \<times> Context) list"
  QueriedOpinions_stats :: "QueriedOpinions list"

text \<open>An emitted event: \<^verbatim>\<open>Finalized\<close> and \<^verbatim>\<open>Failed\<close> carry the fields of
  \<^verbatim>\<open>vote.OpinionEvent\<close> (id, opinion, a copy of the context).\<close>

datatype event =
    Finalized string opinion Context
  | Failed string opinion Context
  | RoundExecuted RoundStats
  | Error error

subsection \<open>The engine\<close>

record FPC =
  emitted :: "event list"
  opinionGiverFunc :: "unit \<Rightarrow> error + OpinionGiver list"
  ownWeightRetrieverFunc :: "unit \<Rightarrow> error + float64"
  queue :: "Context list"
  queueSet :: "string set"
  ctxs :: "(string \<times> Context) list"
  paras :: Parameters
  lastRoundCompletedSuccessfully :: bool
  opinionGiverRng :: Rand

text \<open>\<^verbatim>\<open>New\<close>: the parameters and the generator (seeded from the clock in the source) are
  arguments.\<close>

definition New :: "(unit \<Rightarrow> error + OpinionGiver list) \<Rightarrow> (unit \<Rightarrow> error + float64)
    \<Rightarrow> Parameters \<Rightarrow> Rand \<Rightarrow> FPC" where
  "New giverFunc weightFunc ps rng =
     \<lparr>emitted = [], opinionGiverFunc = giverFunc, ownWeightRetrieverFunc = weightFunc,
      queue = [], queueSet = {}, ctxs = [], paras = ps,
      lastRoundCompletedSuccessfully = False, opinionGiverRng = rng\<rparr>"

text \<open>\<^verbatim>\<open>Vote\<close> returns the error (or none) and the engine after the call.\<close>

definition Vote :: "FPC \<Rightarrow> string \<Rightarrow> ObjectType \<Rightarrow> opinion \<Rightarrow> error option \<times> FPC" where
  "Vote f vid objectType initOpn =
     (if vid \<in> queueSet f then (Some (ErrVoteAlreadyOngoing vid), f)
      else if map_of (ctxs f) vid \<noteq> None then (Some (ErrVoteAlreadyOngoing vid), f)
      else (None, f\<lparr>queue := queue f @ [NewContext vid objectType initOpn],
                     queueSet := insert vid (queueSet f)\<rparr>))"

definition IntermediateOpinion :: "FPC \<Rightarrow> string \<Rightarrow> opinion \<times> error option" where
  "IntermediateOpinion f vid =
     (case map_of (ctxs f) vid of
        None \<Rightarrow> (Unknown, Some (ErrVotingNotFound vid))
      | Some voteCtx \<Rightarrow> (LastOpinion voteCtx, None))"

text \<open>\<^verbatim>\<open>enqueue\<close>: the loop takes the front element until the queue is empty.\<close>

fun enqueue_loop :: "Context list \<Rightarrow> string set \<Rightarrow> (string \<times> Context) list
    \<Rightarrow> string set \<times> (string \<times> Context) list" where
  "enqueue_loop [] qs cs = (qs, cs)"
| "enqueue_loop (voteCtx # rest) qs cs =
     enqueue_loop rest (qs - {ID voteCtx}) (AList.update (ID voteCtx) voteCtx cs)"

definition enqueue :: "FPC \<Rightarrow> FPC" where
  "enqueue f =
     (let (qs, cs) = enqueue_loop (queue f) (queueSet f) (ctxs f)
      in f\<lparr>queue := [], queueSet := qs, ctxs := cs\<rparr>)"

definition setThreshold :: "Parameters \<Rightarrow> Context \<Rightarrow> float64 \<times> float64" where
  "setThreshold ps voteCtx =
     (let lowerThreshold = SubsequentRoundsLowerBoundThreshold ps;
          upperThreshold = SubsequentRoundsUpperBoundThreshold ps;
          (lowerThreshold, upperThreshold) =
            (if HadFirstRound (TotalRoundsCoolingOffPeriod ps) voteCtx
             then (FirstRoundLowerBoundThreshold ps, FirstRoundUpperBoundThreshold ps)
             else (lowerThreshold, upperThreshold))
      in if HadFixedRound (TotalRoundsCoolingOffPeriod ps) (TotalRoundsFinalization ps)
              (TotalRoundsFixedThreshold ps) voteCtx
         then (EndingRoundsFixedThreshold ps, EndingRoundsFixedThreshold ps)
         else (lowerThreshold, upperThreshold))"

definition biasTowardsOwnOpinion :: "Context \<Rightarrow> float64" where
  "biasTowardsOwnOpinion voteCtx =
     (let totalMana = TotalWeights (Weights voteCtx);
          ownMana = OwnWeight (Weights voteCtx)
      in if feq ownMana (Fin 0) \<or> feq totalMana (Fin 0) then ProportionLiked voteCtx
         else let ownOpinion = ConvertOpinionToFloat64 (LastOpinion voteCtx)
              in if flt ownOpinion (Fin 0) then ProportionLiked voteCtx
                 else fadd (fmul (fdiv ownMana totalMana) ownOpinion)
                        (fmul (fsub (Fin 1) (fdiv ownMana totalMana)) (ProportionLiked voteCtx)))"

text \<open>The body of the loop of \<^verbatim>\<open>formOpinions\<close>, for one context.\<close>

definition formOpinion :: "Parameters \<Rightarrow> float64 \<Rightarrow> Context \<Rightarrow> Context" where
  "formOpinion ps rand voteCtx =
     (if IsNew voteCtx then voteCtx
      else let (lowerThreshold, upperThreshold) = setThreshold ps voteCtx;
               eta = biasTowardsOwnOpinion voteCtx
           in if fge eta (RandUniformThreshold rand lowerThreshold upperThreshold)
              then AddOpinion voteCtx Like
              else AddOpinion voteCtx Dislike)"

definition formOpinions :: "FPC \<Rightarrow> float64 \<Rightarrow> FPC" where
  "formOpinions f rand =
     f\<lparr>ctxs := map (\<lambda>(vid, voteCtx). (vid, formOpinion (paras f) rand voteCtx)) (ctxs f)\<rparr>"

text \<open>\<^verbatim>\<open>finalizeOpinions\<close>: the loop visits the entries the registry had on entry; the
  accumulator is the log of new events and the registry after the deletions so far.\<close>

fun finalize_loop :: "Parameters \<Rightarrow> (string \<times> Context) list
    \<Rightarrow> event list \<times> (string \<times> Context) list \<Rightarrow> event list \<times> (string \<times> Context) list" where
  "finalize_loop ps [] acc = acc"
| "finalize_loop ps ((vid, voteCtx) # rest) (evs, cs) =
     (if IsFinalized (TotalRoundsCoolingOffPeriod ps) (TotalRoundsFinalization ps) voteCtx
      then finalize_loop ps rest
             (evs @ [Finalized vid (LastOpinion voteCtx) voteCtx], AList.delete vid cs)
      else if Rounds voteCtx \<ge> MaxRoundsPerVoteContext ps
      then finalize_loop ps rest
             (evs @ [Failed vid (LastOpinion voteCtx) voteCtx], AList.delete vid cs)
      else finalize_loop ps rest (evs, cs))"

definition finalizeOpinions :: "FPC \<Rightarrow> FPC" where
  "finalizeOpinions f =
     (let (evs, cs) = finalize_loop (paras f) (ctxs f) ([], ctxs f)
      in f\<lparr>emitted := emitted f @ evs, ctxs := cs\<rparr>)"

text \<open>The loop of \<^verbatim>\<open>Round\<close> that marks a round as done on every context.\<close>

definition markRound :: "FPC \<Rightarrow> FPC" where
  "markRound f =
     f\<lparr>ctxs := map (\<lambda>(vid, voteCtx). (vid, voteCtx\<lparr>Rounds := Rounds voteCtx + 1\<rparr>)) (ctxs f)\<rparr>"

definition voteContextIDs :: "FPC \<Rightarrow> string list \<times> string list" where
  "voteContextIDs f =
     (map fst (filter (\<lambda>(vid, voteCtx). Type voteCtx = ConflictType) (ctxs f)),
      map fst (filter (\<lambda>(vid, voteCtx). Type voteCtx = TimestampType) (ctxs f)))"

definition createVoteMapForConflicts :: "string list \<Rightarrow> string list
    \<Rightarrow> (string \<times> opinion list) list" where
  "createVoteMapForConflicts conflictIDs timestampIDs =
     foldl (\<lambda>voteMap vid. AList.update vid [] voteMap)
       (foldl (\<lambda>voteMap vid. AList.update vid [] voteMap) [] conflictIDs) timestampIDs"

subsection \<open>Sampling\<close>

text \<open>\<^verbatim>\<open>m[k]++\<close> on a map of counters.\<close>

definition increment :: "'k \<Rightarrow> ('k \<times> int) list \<Rightarrow> ('k \<times> int) list" where
  "increment k m = AList.update k ((case map_of m k of None \<Rightarrow> 0 | Some c \<Rightarrow> c) + 1) m"

text \<open>\<^verbatim>\<open>UniformSampling\<close>: the loop over \<open>i\<close>; \<^verbatim>\<open>Intn\<close> panics on an empty list of givers.\<close>

function uniform_loop :: "OpinionGiver list \<Rightarrow> int \<Rightarrow> int \<Rightarrow> (OpinionGiver \<times> int) list \<Rightarrow> Rand
    \<Rightarrow> error + ((OpinionGiver \<times> int) list \<times> Rand)" where
  "uniform_loop opinionGivers querySampleSize i m rng =
     (if i < querySampleSize
      then (case Intn rng (int (length opinionGivers)) of
              Inl e \<Rightarrow> Inl e
            | Inr (k, rng') \<Rightarrow>
                uniform_loop opinionGivers querySampleSize (i + 1)
                  (increment (opinionGivers ! nat k) m) rng')
      else Inr (m, rng))"
  by pat_completeness auto
termination
  by (relation "measure (\<lambda>(gs, q, i, m, rng). nat (q - i))") auto

declare uniform_loop.simps [simp del]

definition UniformSampling :: "OpinionGiver list \<Rightarrow> int \<Rightarrow> int \<Rightarrow> Rand
    \<Rightarrow> error + ((OpinionGiver \<times> int) list \<times> Rand)" where
  "UniformSampling opinionGivers maxQuerySampleSize querySampleSize rng =
     uniform_loop opinionGivers querySampleSize 0 [] rng"

text \<open>The first loop of \<^verbatim>\<open>ManaBasedSampling\<close>: the running total and the prefix sums.\<close>

fun mana_totals :: "OpinionGiver list \<Rightarrow> float64 \<Rightarrow> float64 list \<Rightarrow> float64 \<times> float64 list" where
  "mana_totals [] totalConsensusMana totals = (totalConsensusMana, totals)"
| "mana_totals (g # gs) totalConsensusMana totals =
     mana_totals gs (fadd totalConsensusMana (Mana g))
       (totals @ [fadd totalConsensusMana (Mana g)])"

text \<open>The inner loop: the index of the first prefix sum above the draw, if there is one.\<close>

fun select_index :: "float64 \<Rightarrow> float64 list \<Rightarrow> nat \<Rightarrow> nat option" where
  "select_index rnd [] idx = None"
| "select_index rnd (v # vs) idx = (if flt rnd v then Some idx else select_index rnd vs (Suc idx))"

text \<open>The outer loop over \<open>i\<close>; \<open>len(opinionGiversToQuery)\<close> is the number of keys.\<close>

function weighted_loop :: "OpinionGiver list \<Rightarrow> float64 list \<Rightarrow> float64 \<Rightarrow> int \<Rightarrow> int \<Rightarrow> int
    \<Rightarrow> (OpinionGiver \<times> int) list \<Rightarrow> Rand \<Rightarrow> (OpinionGiver \<times> int) list \<times> Rand" where
  "weighted_loop opinionGivers totals totalConsensusMana maxQuerySampleSize querySampleSize i m rng =
     (if i < maxQuerySampleSize \<and> int (length m) < querySampleSize
      then weighted_loop opinionGivers totals totalConsensusMana maxQuerySampleSize
             querySampleSize (i + 1)
             (case select_index (fmul (fst (Float64 rng)) totalConsensusMana) totals 0 of
                None \<Rightarrow> m
              | Some idx \<Rightarrow> increment (opinionGivers ! idx) m)
             (snd (Float64 rng))
      else (m, rng))"
  by pat_completeness auto
termination
  by (relation "measure (\<lambda>(gs, ts, t, mq, q, i, m, rng). nat (mq - i))") auto

declare weighted_loop.simps [simp del]

definition ManaBasedSampling :: "OpinionGiver list \<Rightarrow> int \<Rightarrow> int \<Rightarrow> Rand
    \<Rightarrow> error + (((OpinionGiver \<times> int) list \<times> float64) \<times> Rand)" where
  "ManaBasedSampling opinionGivers maxQuerySampleSize querySampleSize rng =
     (let (totalConsensusMana, totals) = mana_totals opinionGivers (Fin 0) []
      in if fle (fabs totalConsensusMana) toleranceTotalMana
         then (case UniformSampling opinionGivers maxQuerySampleSize querySampleSize rng of
                 Inl e \<Rightarrow> Inl e
               | Inr (m, rng') \<Rightarrow> Inr ((m, Fin 0), rng'))
         else (let (m, rng') = weighted_loop opinionGivers totals totalConsensusMana
                                 maxQuerySampleSize querySampleSize 0 [] rng
               in Inr ((m, totalConsensusMana), rng')))"

subsection \<open>Querying and aggregating\<close>

text \<open>\<^verbatim>\<open>voteMap[id] = append(voteMap[id], o)\<close>, \<open>selectedCount\<close> times.\<close>

definition append_votes :: "string \<Rightarrow> opinion \<Rightarrow> int \<Rightarrow> (string \<times> opinion list) list
    \<Rightarrow> (string \<times> opinion list) list" where
  "append_votes vid opn selectedCount voteMap =
     AList.update vid
       ((case map_of voteMap vid of None \<Rightarrow> [] | Some votes \<Rightarrow> votes)
          @ replicate (nat selectedCount) opn) voteMap"

text \<open>
  The two \<^verbatim>\<open>range\<close> loops of the query task, over \<^verbatim>\<open>conflictIDs\<close> and over
  \<^verbatim>\<open>timestampIDs\<close>, have the same body: the index \<open>i\<close> starts at 0 in each of them and the
  opinion read is \<^verbatim>\<open>opinions[i]\<close>.
\<close>

fun tally_loop :: "string list \<Rightarrow> nat \<Rightarrow> opinion list \<Rightarrow> int
    \<Rightarrow> (string \<times> opinion list) list \<times> (string \<times> opinion) list
    \<Rightarrow> (string \<times> opinion list) list \<times> (string \<times> opinion) list" where
  "tally_loop [] i opinions selectedCount acc = acc"
| "tally_loop (vid # ids) i opinions selectedCount (voteMap, queried) =
     tally_loop ids (Suc i) opinions selectedCount
       (append_votes vid (opinions ! i) selectedCount voteMap,
        AList.update vid (opinions ! i) queried)"

text \<open>
  The task of one selected giver. The tasks run under \<^verbatim>\<open>voteMapMu\<close> from the query's return
  on, so each is one step on the pair of the vote map and the list of queried opinions.
\<close>

fun query_task :: "string list \<Rightarrow> string list
    \<Rightarrow> (string \<times> opinion list) list \<times> QueriedOpinions list \<Rightarrow> OpinionGiver \<times> int
    \<Rightarrow> (string \<times> opinion list) list \<times> QueriedOpinions list" where
  "query_task conflictIDs timestampIDs (voteMap, allQueriedOpinions)
       (opinionGiverToQuery, selectedCount) =
     (case Query opinionGiverToQuery conflictIDs timestampIDs of
        Inl e \<Rightarrow> (voteMap, allQueriedOpinions)
      | Inr opinions \<Rightarrow>
          if length opinions \<noteq> length conflictIDs + length timestampIDs
          then (voteMap, allQueriedOpinions)
          else (let (voteMap1, queried1) =
                      tally_loop conflictIDs 0 opinions selectedCount (voteMap, []);
                    (voteMap2, queried2) =
                      tally_loop timestampIDs 0 opinions selectedCount (voteMap1, queried1)
                in (voteMap2,
                    allQueriedOpinions @
                      [\<lparr>OpinionGiverID = ID_giver opinionGiverToQuery,
                        Opinions_queried = queried2, TimesCounted = selectedCount\<rparr>])))"

text \<open>The counting loop over the votes of one id: \<open>votedCount\<close> starts at \<open>len(votes)\<close>.\<close>

fun count_votes :: "opinion list \<Rightarrow> int \<times> float64 \<Rightarrow> int \<times> float64" where
  "count_votes [] acc = acc"
| "count_votes (Unknown # os) (votedCount, likedSum) = count_votes os (votedCount - 1, likedSum)"
| "count_votes (Like # os) (votedCount, likedSum) =
     count_votes os (votedCount, fadd likedSum (Fin 1))"
| "count_votes (Dislike # os) (votedCount, likedSum) = count_votes os (votedCount, likedSum)"

text \<open>The body of the aggregation loop, for one entry of the vote map.\<close>

definition aggregate_step :: "Parameters \<Rightarrow> float64 \<Rightarrow> float64 \<Rightarrow> (string \<times> Context) list
    \<Rightarrow> string \<times> opinion list \<Rightarrow> (string \<times> Context) list" where
  "aggregate_step ps ownMana totalMana cs entry =
     (case entry of (vid, votes) \<Rightarrow>
      let (votedCount, likedSum) = count_votes votes (int (length votes), Fin 0)
      in if votedCount < MinOpinionsReceived ps then cs
         else AList.map_entry vid
                (\<lambda>voteCtx. voteCtx\<lparr>Weights := \<lparr>OwnWeight = ownMana, TotalWeights = totalMana\<rparr>,
                                   ProportionLiked := fdiv likedSum (Fin (of_int votedCount))\<rparr>)
                cs)"

definition aggregate :: "Parameters \<Rightarrow> float64 \<Rightarrow> float64 \<Rightarrow> (string \<times> opinion list) list
    \<Rightarrow> (string \<times> Context) list \<Rightarrow> (string \<times> Context) list" where
  "aggregate ps ownMana totalMana voteMap cs =
     foldl (aggregate_step ps ownMana totalMana) cs voteMap"

definition queryOpinions :: "FPC \<Rightarrow> (error + QueriedOpinions list) \<times> FPC" where
  "queryOpinions f =
     (let (conflictIDs, timestampIDs) = voteContextIDs f
      in if conflictIDs = [] \<and> timestampIDs = [] then (Inr [], f)
         else (case opinionGiverFunc f () of
           Inl e \<Rightarrow> (Inl e, f)
         | Inr opinionGivers \<Rightarrow>
             if opinionGivers = [] then (Inl ErrNoOpinionGiversAvailable, f)
             else (case ManaBasedSampling opinionGivers (MaxQuerySampleSize (paras f))
                         (QuerySampleSize (paras f)) (opinionGiverRng f) of
               Inl e \<Rightarrow> (Inl e, f)
             | Inr ((opinionGiversToQuery, totalOpinionGiversMana), rng') \<Rightarrow>
                 (case ownWeightRetrieverFunc f () of
                    Inl e \<Rightarrow> (Inl e, f\<lparr>opinionGiverRng := rng'\<rparr>)
                  | Inr ownMana \<Rightarrow>
                      (let totalMana = fadd totalOpinionGiversMana ownMana;
                           voteMap = createVoteMapForConflicts conflictIDs timestampIDs;
                           (voteMap', allQueriedOpinions) =
                             foldl (query_task conflictIDs timestampIDs) (voteMap, [])
                               opinionGiversToQuery
                       in (Inr allQueriedOpinions,
                           f\<lparr>opinionGiverRng := rng',
                             ctxs := aggregate (paras f) ownMana totalMana voteMap'
                                       (ctxs f)\<rparr>))))))"

definition Round :: "FPC \<Rightarrow> float64 \<Rightarrow> error option \<times> FPC" where
  "Round f rand =
     (let f1 = enqueue f;
          f2 = (if lastRoundCompletedSuccessfully f1
                then finalizeOpinions (formOpinions f1 rand) else f1);
          f3 = markRound f2
      in case queryOpinions f3 of
           (Inr queriedOpinions, f4) \<Rightarrow>
             (None,
              f4\<lparr>lastRoundCompletedSuccessfully := True,
                 emitted := emitted f4 @
                   [RoundExecuted \<lparr>RandUsed = rand, ActiveVoteContexts = ctxs f4,
                                   QueriedOpinions_stats = queriedOpinions\<rparr>]\<rparr>)
         | (Inl err, f4) \<Rightarrow> (Some err, f4))"

subsection \<open>Observing a run\<close>

text \<open>The engine at the tick of \<^verbatim>\<open>Round\<close>: after the promotion of the queue and the gated
  formation and finalization passes.\<close>

definition before_tick :: "FPC \<Rightarrow> float64 \<Rightarrow> FPC" where
  "before_tick f rand =
     (if lastRoundCompletedSuccessfully (enqueue f)
      then finalizeOpinions (formOpinions (enqueue f) rand) else enqueue f)"

text \<open>The id that a \<^verbatim>\<open>Finalized\<close> or \<^verbatim>\<open>Failed\<close> event reports.\<close>

fun removed_id :: "event \<Rightarrow> string option" where
  "removed_id (Finalized vid opn voteCtx) = Some vid"
| "removed_id (Failed vid opn voteCtx) = Some vid"
| "removed_id ev = None"

text \<open>The \<^verbatim>\<open>Finalized\<close> events of a log, each as its id and the opinion history of the
  context it carries; the ids of the \<^verbatim>\<open>Failed\<close> events; the number of
  \<^verbatim>\<open>RoundExecuted\<close> events.\<close>

fun finalized_histories :: "event list \<Rightarrow> (string \<times> opinion list) list" where
  "finalized_histories [] = []"
| "finalized_histories (Finalized vid opn voteCtx # evs) =
     (vid, Opinions voteCtx) # finalized_histories evs"
| "finalized_histories (ev # evs) = finalized_histories evs"

fun failed_ids :: "event list \<Rightarrow> string list" where
  "failed_ids [] = []"
| "failed_ids (Failed vid opn voteCtx # evs) = vid # failed_ids evs"
| "failed_ids (ev # evs) = failed_ids evs"

fun rounds_executed :: "event list \<Rightarrow> nat" where
  "rounds_executed [] = 0"
| "rounds_executed (RoundExecuted stats # evs) = Suc (rounds_executed evs)"
| "rounds_executed (ev # evs) = rounds_executed evs"

text \<open>The rounds counter of every context of the registry.\<close>

definition rounds_of :: "FPC \<Rightarrow> (string \<times> int) list" where
  "rounds_of f = map (\<lambda>(vid, voteCtx). (vid, Rounds voteCtx)) (ctxs f)"

text \<open>The liked proportion of every context of the registry.\<close>

definition liked_of :: "FPC \<Rightarrow> (string \<times> float64) list" where
  "liked_of f = map (\<lambda>(vid, voteCtx). (vid, ProportionLiked voteCtx)) (ctxs f)"

text \<open>\<open>n\<close> calls of \<^verbatim>\<open>Round\<close> with the same random number.\<close>

primrec run_rounds :: "nat \<Rightarrow> FPC \<Rightarrow> float64 \<Rightarrow> FPC" where
  "run_rounds 0 f rand = f"
| "run_rounds (Suc n) f rand = run_rounds n (snd (Round f rand)) rand"

subsection \<open>The tally of the specification\<close>

text \<open>
  The specification's words for the aggregation: \<open>votedCount\<close> is the size of the tally
  minus the number of \<open>Unknown\<close>, \<open>likedSum\<close> is the number of \<open>Like\<close>. They are compared
  below with the counting loop \<open>count_votes\<close> of the source.
\<close>

definition voted_count :: "opinion list \<Rightarrow> int" where
  "voted_count votes = int (length votes) - int (count_list votes Unknown)"

definition liked_sum :: "opinion list \<Rightarrow> float64" where
  "liked_sum votes = Fin (real (count_list votes Like))"

text \<open>The vote map of \<^verbatim>\<open>queryOpinions\<close> after the fan-out to the selected givers.\<close>

definition query_tally :: "FPC \<Rightarrow> (OpinionGiver \<times> int) list \<Rightarrow> (string \<times> opinion list) list" where
  "query_tally f opinionGiversToQuery =
     (let (conflictIDs, timestampIDs) = voteContextIDs f
      in fst (foldl (query_task conflictIDs timestampIDs)
                (createVoteMapForConflicts conflictIDs timestampIDs, []) opinionGiversToQuery))"

text \<open>The votes that one selected giver adds to the tally of the id at position \<open>i\<close> of
  its list: none when its query fails or its response has the wrong length, and otherwise
  \<open>selectedCount\<close> copies of the opinion that the query task reads for that position.\<close>

definition votes_from :: "nat \<Rightarrow> string list \<Rightarrow> string list \<Rightarrow> OpinionGiver \<times> int \<Rightarrow> opinion list" where
  "votes_from i conflictIDs timestampIDs sel =
     (case Query (fst sel) conflictIDs timestampIDs of
        Inl e \<Rightarrow> []
      | Inr opinions \<Rightarrow>
          if length opinions \<noteq> length conflictIDs + length timestampIDs then []
          else replicate (nat (snd sel)) (opinions ! i))"

subsection \<open>The samplers of the specification\<close>

text \<open>The specification's words for the sampler: \<open>M\<close> is the sum of the givers' mana (in
  the order of the list), and the prefix sums are the sums of its non-empty prefixes.\<close>

definition total_mana :: "OpinionGiver list \<Rightarrow> float64" where
  "total_mana opinionGivers = foldl fadd (Fin 0) (map Mana opinionGivers)"

definition prefix_sums :: "OpinionGiver list \<Rightarrow> float64 list" where
  "prefix_sums opinionGivers =
     map (\<lambda>k. total_mana (take (Suc k) opinionGivers)) [0..<length opinionGivers]"

text \<open>The count map of a sequence of picks: every pick increments the count of its giver.\<close>

definition count_picks :: "'k list \<Rightarrow> ('k \<times> int) list \<Rightarrow> ('k \<times> int) list" where
  "count_picks picks m = foldl (\<lambda>m k. increment k m) m picks"

text \<open>The givers that the first \<open>d\<close> draws of uniform sampling pick: each draw is one call of
  \<^verbatim>\<open>Intn(len(opinionGivers))\<close>.\<close>

fun uniform_picks :: "OpinionGiver list \<Rightarrow> Rand \<Rightarrow> nat \<Rightarrow> OpinionGiver list" where
  "uniform_picks opinionGivers rng 0 = []"
| "uniform_picks opinionGivers rng (Suc d) =
     opinionGivers ! (int_draws rng (cursor rng) mod length opinionGivers)
       # uniform_picks opinionGivers (rng\<lparr>cursor := Suc (cursor rng)\<rparr>) d"

text \<open>The givers that the first \<open>d\<close> draws of weighted sampling pick: each draw is one call of
  \<^verbatim>\<open>Float64\<close>, scaled by the total mana, and picks the giver at the first index whose prefix
  sum exceeds it, or no giver when no prefix sum does.\<close>

fun weighted_picks :: "OpinionGiver list \<Rightarrow> float64 list \<Rightarrow> float64 \<Rightarrow> Rand \<Rightarrow> nat
    \<Rightarrow> OpinionGiver list" where
  "weighted_picks opinionGivers totals totalMana rng 0 = []"
| "weighted_picks opinionGivers totals totalMana rng (Suc d) =
     (case select_index (fmul (Fin (float_draws rng (cursor rng))) totalMana) totals 0 of
        None \<Rightarrow> []
      | Some idx \<Rightarrow> [opinionGivers ! idx])
     @ weighted_picks opinionGivers totals totalMana (rng\<lparr>cursor := Suc (cursor rng)\<rparr>) d"

subsection \<open>Concrete engines\<close>

definition ex_paras :: Parameters where
  "ex_paras =
     \<lparr>FirstRoundLowerBoundThreshold = Fin (1 / 2), FirstRoundUpperBoundThreshold = Fin (1 / 2),
      SubsequentRoundsLowerBoundThreshold = Fin (1 / 2),
      SubsequentRoundsUpperBoundThreshold = Fin (1 / 2),
      EndingRoundsFixedThreshold = Fin (1 / 2),
      QuerySampleSize = 1, MaxQuerySampleSize = 2, MinOpinionsReceived = 1,
      TotalRoundsFinalization = 2, TotalRoundsCoolingOffPeriod = 0,
      TotalRoundsFixedThreshold = 2, MaxRoundsPerVoteContext = 3\<rparr>"

definition ex_rng :: Rand where
  "ex_rng = \<lparr>float_draws = (\<lambda>n. 1 / 4), int_draws = (\<lambda>n. n), cursor = 0\<rparr>"

definition no_givers :: "unit \<Rightarrow> error + OpinionGiver list" where
  "no_givers u = Inr []"

definition own_mana_zero :: "unit \<Rightarrow> error + float64" where
  "own_mana_zero u = Inr (Fin 0)"

text \<open>A giver that answers \<open>Like\<close> for the first id of a query and \<open>Dislike\<close> for the second.\<close>

definition answer_like_dislike :: "string list \<Rightarrow> string list \<Rightarrow> error + opinion list" where
  "answer_like_dislike conflictIDs timestampIDs = Inr [Like, Dislike]"

definition giver_g :: OpinionGiver where
  "giver_g = \<lparr>ID_giver = ''g'', Mana = Fin 1, Query = answer_like_dislike\<rparr>"

definition one_giver :: "unit \<Rightarrow> error + OpinionGiver list" where
  "one_giver u = Inr [giver_g]"

text \<open>A new engine without givers; the same with \<open>x\<close> submitted.\<close>

definition fpc_fresh :: FPC where
  "fpc_fresh = New no_givers own_mana_zero ex_paras ex_rng"

definition fpc_x :: FPC where
  "fpc_x = snd (Vote fpc_fresh ''x'' ConflictType Like)"

text \<open>A new engine with one giver, the conflict \<open>a\<close> and the timestamp \<open>b\<close> submitted.\<close>

definition fpc_ab :: FPC where
  "fpc_ab =
     snd (Vote (snd (Vote (New one_giver own_mana_zero ex_paras ex_rng) ''a'' ConflictType Like))
            ''b'' TimestampType Like)"

text \<open>The context of scenario S3 of the specification: own mana 9 of 10, opinion \<open>Like\<close>,
  liked proportion 0.\<close>

definition ctx_s3 :: Context where
  "ctx_s3 =
     \<lparr>ID = ''s3'', Type = ConflictType, ProportionLiked = Fin 0, Rounds = 1,
      Opinions = [Like], Weights = \<lparr>OwnWeight = Fin 9, TotalWeights = Fin 10\<rparr>\<rparr>"

text \<open>The engine \<open>fpc_ab\<close> after one round, with the givers gone from then on.\<close>

definition fpc_outage :: FPC where
  "fpc_outage = (snd (Round fpc_ab (Fin (1 / 2))))\<lparr>opinionGiverFunc := no_givers\<rparr>"

text \<open>The engine \<open>fpc_ab\<close> at the query stage of its first round; the same with a minimum
  of two opinions.\<close>

definition fpc_ab_ticked :: FPC where
  "fpc_ab_ticked = markRound (enqueue fpc_ab)"

definition fpc_ab_strict :: FPC where
  "fpc_ab_strict = fpc_ab_ticked\<lparr>paras := ex_paras\<lparr>MinOpinionsReceived := 2\<rparr>\<rparr>"

text \<open>Givers with mana 3 and with no mana, and a generator whose first draw differs from the
  later ones.\<close>

definition giver_h :: OpinionGiver where
  "giver_h = \<lparr>ID_giver = ''h'', Mana = Fin 3, Query = answer_like_dislike\<rparr>"

definition giver_p :: OpinionGiver where
  "giver_p = \<lparr>ID_giver = ''p'', Mana = Fin 0, Query = answer_like_dislike\<rparr>"

definition giver_q :: OpinionGiver where
  "giver_q = \<lparr>ID_giver = ''q'', Mana = Fin 0, Query = answer_like_dislike\<rparr>"

definition ex_rng_mixed :: Rand where
  "ex_rng_mixed =
     \<lparr>float_draws = (\<lambda>n. if n = 0 then 1 / 8 else 1 / 2), int_draws = (\<lambda>n. n), cursor = 0\<rparr>"

text \<open>A giver whose query fails, and the engine \<open>fpc_ab_ticked\<close> with that giver alone and
  no minimum of opinions.\<close>

definition answer_error :: "string list \<Rightarrow> string list \<Rightarrow> error + opinion list" where
  "answer_error conflictIDs timestampIDs = Inl (ExternalError ''no answer'')"

definition giver_s :: OpinionGiver where
  "giver_s = \<lparr>ID_giver = ''s'', Mana = Fin 1, Query = answer_error\<rparr>"

definition silent_giver :: "unit \<Rightarrow> error + OpinionGiver list" where
  "silent_giver u = Inr [giver_s]"

definition fpc_ab_silent :: FPC where
  "fpc_ab_silent =
     fpc_ab_ticked\<lparr>opinionGiverFunc := silent_giver, paras := ex_paras\<lparr>MinOpinionsReceived := 0\<rparr>\<rparr>"

text \<open>The engine \<open>fpc_x\<close> after \<open>k\<close> rounds, as shown below.\<close>

definition fpc_x_after :: "int \<Rightarrow> FPC" where
  "fpc_x_after k =
     fpc_fresh\<lparr>ctxs := [(''x'', (NewContext ''x'' ConflictType Like)\<lparr>Rounds := k\<rparr>)]\<rparr>"

text \<open>A new engine without givers that runs one round before \<open>x\<close> is submitted; the same
  with ten identical opinions needed for finalization.\<close>

definition fpc_x_late :: FPC where
  "fpc_x_late = snd (Vote (snd (Round fpc_fresh (Fin (1 / 2)))) ''x'' ConflictType Like)"

definition fpc_x_late_long :: FPC where
  "fpc_x_late_long = fpc_x_late\<lparr>paras := ex_paras\<lparr>TotalRoundsFinalization := 10\<rparr>\<rparr>"

section \<open>Properties\<close>

lemmas engine_defs = Round_def enqueue_def formOpinions_def formOpinion_def finalizeOpinions_def
  markRound_def queryOpinions_def voteContextIDs_def createVoteMapForConflicts_def
  ManaBasedSampling_def UniformSampling_def aggregate_def aggregate_step_def
  append_votes_def increment_def Float64_def Intn_def setThreshold_def biasTowardsOwnOpinion_def
  IsNew_def HadFirstRound_def HadFixedRound_def IsFinalized_def LastOpinion_def AddOpinion_def
  RandUniformThreshold_def NewContext_def New_def Vote_def toleranceTotalMana_def
  fle_def fge_def fsub_def IntermediateOpinion_def

lemmas ex_defs = ex_paras_def ex_rng_def no_givers_def own_mana_zero_def answer_like_dislike_def
  giver_g_def one_giver_def fpc_fresh_def fpc_x_def fpc_ab_def fpc_outage_def

subsection \<open>Submission and lookup\<close>

lemma map_of_None_keys: "(map_of xs k = None) = (k \<notin> fst ` set xs)"
  by (simp add: map_of_eq_None_iff)

lemma Vote_cases:
  shows "fst (Vote f vid objectType initOpn) = Some (ErrVoteAlreadyOngoing vid)
      \<longleftrightarrow> vid \<in> queueSet f \<or> vid \<in> fst ` set (ctxs f)"
    and "fst (Vote f vid objectType initOpn) = None
      \<longleftrightarrow> \<not> (vid \<in> queueSet f \<or> vid \<in> fst ` set (ctxs f))"
    and "fst (Vote f vid objectType initOpn) \<noteq> None \<longrightarrow> snd (Vote f vid objectType initOpn) = f"
    and "fst (Vote f vid objectType initOpn) = None \<longrightarrow>
        (\<exists>voteCtx. queue (snd (Vote f vid objectType initOpn)) = queue f @ [voteCtx]
           \<and> ID voteCtx = vid \<and> Type voteCtx = objectType \<and> Opinions voteCtx = [initOpn])
        \<and> queueSet (snd (Vote f vid objectType initOpn)) = insert vid (queueSet f)
        \<and> ctxs (snd (Vote f vid objectType initOpn)) = ctxs f"
  by (auto simp: Vote_def NewContext_def map_of_None_keys split: if_splits)

subsection \<open>What a round leaves alone\<close>

lemma enqueue_loop_queueSet: "fst (enqueue_loop q qs cs) = qs - ID ` set q"
  by (induction q arbitrary: qs cs) auto

lemma queueSet_enqueue: "queueSet (enqueue f) = queueSet f - ID ` set (queue f)"
  using enqueue_loop_queueSet [of "queue f" "queueSet f" "ctxs f"]
  by (auto simp: enqueue_def split: prod.splits)

lemma enqueue_frame:
  "emitted (enqueue f) = emitted f \<and> queue (enqueue f) = []
   \<and> lastRoundCompletedSuccessfully (enqueue f) = lastRoundCompletedSuccessfully f
   \<and> opinionGiverFunc (enqueue f) = opinionGiverFunc f
   \<and> paras (enqueue f) = paras f"
  by (simp add: enqueue_def split: prod.splits)

lemma formOpinions_frame:
  "queueSet (formOpinions f r) = queueSet f \<and> queue (formOpinions f r) = queue f
   \<and> emitted (formOpinions f r) = emitted f
   \<and> lastRoundCompletedSuccessfully (formOpinions f r) = lastRoundCompletedSuccessfully f
   \<and> opinionGiverFunc (formOpinions f r) = opinionGiverFunc f
   \<and> paras (formOpinions f r) = paras f
   \<and> map fst (ctxs (formOpinions f r)) = map fst (ctxs f)"
  by (auto simp: formOpinions_def)

lemma finalizeOpinions_frame:
  "queueSet (finalizeOpinions f) = queueSet f \<and> queue (finalizeOpinions f) = queue f
   \<and> lastRoundCompletedSuccessfully (finalizeOpinions f) = lastRoundCompletedSuccessfully f
   \<and> opinionGiverFunc (finalizeOpinions f) = opinionGiverFunc f
   \<and> paras (finalizeOpinions f) = paras f"
  by (simp add: finalizeOpinions_def split: prod.splits)

lemma markRound_frame:
  "queueSet (markRound f) = queueSet f \<and> queue (markRound f) = queue f
   \<and> emitted (markRound f) = emitted f
   \<and> lastRoundCompletedSuccessfully (markRound f) = lastRoundCompletedSuccessfully f
   \<and> opinionGiverFunc (markRound f) = opinionGiverFunc f
   \<and> paras (markRound f) = paras f
   \<and> map fst (ctxs (markRound f)) = map fst (ctxs f)"
  by (auto simp: markRound_def)

lemma keys_map_entry: "map fst (AList.map_entry k g xs) = map fst xs"
  by (induction xs) auto

lemma keys_aggregate_step: "map fst (aggregate_step ps own tot cs entry) = map fst cs"
  by (cases entry) (simp add: aggregate_step_def keys_map_entry split: prod.splits)

lemma keys_aggregate: "map fst (aggregate ps own tot voteMap cs) = map fst cs"
  unfolding aggregate_def
  by (induction voteMap arbitrary: cs) (simp_all add: keys_aggregate_step)

lemma queryOpinions_frame:
  "map fst (ctxs (snd (queryOpinions f))) = map fst (ctxs f)
   \<and> emitted (snd (queryOpinions f)) = emitted f
   \<and> queueSet (snd (queryOpinions f)) = queueSet f
   \<and> queue (snd (queryOpinions f)) = queue f
   \<and> opinionGiverFunc (snd (queryOpinions f)) = opinionGiverFunc f
   \<and> paras (snd (queryOpinions f)) = paras f
   \<and> lastRoundCompletedSuccessfully (snd (queryOpinions f)) = lastRoundCompletedSuccessfully f"
  by (simp add: queryOpinions_def Let_def keys_aggregate split: prod.splits sum.splits)

lemma Round_alt:
  "Round f rand =
     (case queryOpinions (markRound (before_tick f rand)) of
        (Inr queriedOpinions, f4) \<Rightarrow>
          (None,
           f4\<lparr>lastRoundCompletedSuccessfully := True,
              emitted := emitted f4 @
                [RoundExecuted \<lparr>RandUsed = rand, ActiveVoteContexts = ctxs f4,
                                QueriedOpinions_stats = queriedOpinions\<rparr>]\<rparr>)
      | (Inl err, f4) \<Rightarrow> (Some err, f4))"
  by (simp add: Round_def before_tick_def Let_def)

lemma Round_cases:
  obtains (ok) queriedOpinions f4 where
      "queryOpinions (markRound (before_tick f rand)) = (Inr queriedOpinions, f4)"
      "Round f rand =
         (None,
          f4\<lparr>lastRoundCompletedSuccessfully := True,
             emitted := emitted f4 @
               [RoundExecuted \<lparr>RandUsed = rand, ActiveVoteContexts = ctxs f4,
                               QueriedOpinions_stats = queriedOpinions\<rparr>]\<rparr>)"
  | (err) e f4 where
      "queryOpinions (markRound (before_tick f rand)) = (Inl e, f4)"
      "Round f rand = (Some e, f4)"
proof (cases "queryOpinions (markRound (before_tick f rand))")
  case (Pair res f4)
  show ?thesis
  proof (cases res)
    case (Inl e)
    show ?thesis by (rule err [of e f4]) (simp_all add: Round_alt Pair Inl)
  next
    case (Inr qs)
    show ?thesis by (rule ok [of qs f4]) (simp_all add: Round_alt Pair Inr)
  qed
qed

lemma Round_frame:
  "map fst (ctxs (snd (Round f r))) = map fst (ctxs (before_tick f r))
   \<and> queueSet (snd (Round f r)) = queueSet (before_tick f r)
   \<and> queue (snd (Round f r)) = queue (before_tick f r)
   \<and> opinionGiverFunc (snd (Round f r)) = opinionGiverFunc (before_tick f r)
   \<and> paras (snd (Round f r)) = paras (before_tick f r)"
proof (cases f r rule: Round_cases)
  case (ok qs f4)
  then show ?thesis
    using queryOpinions_frame [of "markRound (before_tick f r)"]
      markRound_frame [of "before_tick f r"] by simp
next
  case (err e f4)
  then show ?thesis
    using queryOpinions_frame [of "markRound (before_tick f r)"]
      markRound_frame [of "before_tick f r"] by simp
qed

lemma before_tick_frame:
  "queueSet (before_tick f r) = queueSet f - ID ` set (queue f) \<and> queue (before_tick f r) = []
   \<and> opinionGiverFunc (before_tick f r) = opinionGiverFunc f
   \<and> paras (before_tick f r) = paras f
   \<and> lastRoundCompletedSuccessfully (before_tick f r) = lastRoundCompletedSuccessfully f"
  using finalizeOpinions_frame [of "formOpinions (enqueue f) r"] formOpinions_frame [of "enqueue f" r]
    queueSet_enqueue [of f] enqueue_frame [of f]
  by (simp add: before_tick_def)

lemma Round_keys:
  "map fst (ctxs (snd (Round f r))) = map fst (ctxs (before_tick f r))"
  using Round_frame [of f r] by simp

lemma Round_queueSet:
  "queueSet (snd (Round f r)) = queueSet f - ID ` set (queue f) \<and> queue (snd (Round f r)) = []"
  using Round_frame [of f r] before_tick_frame [of f r] by simp

subsection \<open>Finalized and failed contexts leave the registry\<close>

lemma finalize_loop_keys:
  "fst ` set (snd (finalize_loop ps xs acc)) \<subseteq> fst ` set (snd acc)"
proof (induction xs arbitrary: acc)
  case Nil
  then show ?case by simp
next
  case (Cons x xs)
  obtain vid voteCtx where x: "x = (vid, voteCtx)" by (cases x)
  obtain evs cs where acc: "acc = (evs, cs)" by (cases acc)
  have del: "fst ` set (AList.delete vid cs) \<subseteq> fst ` set cs"
    by (auto simp: AList.delete_eq)
  have step: "fst ` set (snd (finalize_loop ps xs (evs', AList.delete vid cs))) \<subseteq> fst ` set cs"
    for evs'
  proof -
    have "fst ` set (snd (finalize_loop ps xs (evs', AList.delete vid cs)))
            \<subseteq> fst ` set (AList.delete vid cs)"
      using Cons.IH [of "(evs', AList.delete vid cs)"] by simp
    then show ?thesis using del by blast
  qed
  show ?case
    using step Cons.IH [of "(evs, cs)"] by (simp add: x acc)
qed

lemma finalize_loop_events:
  "\<exists>new. fst (finalize_loop ps xs (evs, cs)) = evs @ new
     \<and> (\<forall>ev \<in> set new. \<forall>vid. removed_id ev = Some vid \<longrightarrow>
           vid \<notin> fst ` set (snd (finalize_loop ps xs (evs, cs))))"
proof (induction xs arbitrary: evs cs)
  case Nil
  then show ?case by simp
next
  case (Cons x xs)
  obtain vid voteCtx where x: "x = (vid, voteCtx)" by (cases x)
  let ?fin = "Finalized vid (LastOpinion voteCtx) voteCtx"
  let ?fail = "Failed vid (LastOpinion voteCtx) voteCtx"
  have gone: "vid \<notin> fst ` set (snd (finalize_loop ps xs (evs', AList.delete vid cs)))" for evs'
    using finalize_loop_keys [of ps xs "(evs', AList.delete vid cs)"]
    by (auto simp: AList.delete_eq)
  consider (finalized)
      "IsFinalized (TotalRoundsCoolingOffPeriod ps) (TotalRoundsFinalization ps) voteCtx"
    | (failed)
      "\<not> IsFinalized (TotalRoundsCoolingOffPeriod ps) (TotalRoundsFinalization ps) voteCtx"
      "Rounds voteCtx \<ge> MaxRoundsPerVoteContext ps"
    | (kept)
      "\<not> IsFinalized (TotalRoundsCoolingOffPeriod ps) (TotalRoundsFinalization ps) voteCtx"
      "\<not> Rounds voteCtx \<ge> MaxRoundsPerVoteContext ps"
    by blast
  then show ?case
  proof cases
    case finalized
    obtain new where new:
      "fst (finalize_loop ps xs (evs @ [?fin], AList.delete vid cs)) = (evs @ [?fin]) @ new"
      "\<forall>ev \<in> set new. \<forall>v. removed_id ev = Some v \<longrightarrow>
           v \<notin> fst ` set (snd (finalize_loop ps xs (evs @ [?fin], AList.delete vid cs)))"
      using Cons.IH [of "evs @ [?fin]" "AList.delete vid cs"] by blast
    show ?thesis
      apply (rule exI [of _ "?fin # new"])
      using finalized new gone [of "evs @ [?fin]"] by (auto simp: x)
  next
    case failed
    obtain new where new:
      "fst (finalize_loop ps xs (evs @ [?fail], AList.delete vid cs)) = (evs @ [?fail]) @ new"
      "\<forall>ev \<in> set new. \<forall>v. removed_id ev = Some v \<longrightarrow>
           v \<notin> fst ` set (snd (finalize_loop ps xs (evs @ [?fail], AList.delete vid cs)))"
      using Cons.IH [of "evs @ [?fail]" "AList.delete vid cs"] by blast
    show ?thesis
      apply (rule exI [of _ "?fail # new"])
      using failed new gone [of "evs @ [?fail]"] by (auto simp: x)
  next
    case kept
    then show ?thesis using Cons.IH [of evs cs] by (simp add: x)
  qed
qed

lemma finalizeOpinions_events:
  "\<exists>new. emitted (finalizeOpinions f) = emitted f @ new
     \<and> (\<forall>ev \<in> set new. \<forall>vid. removed_id ev = Some vid \<longrightarrow>
           vid \<notin> fst ` set (ctxs (finalizeOpinions f)))"
proof -
  obtain evs cs where r: "finalize_loop (paras f) (ctxs f) ([], ctxs f) = (evs, cs)"
    by fastforce
  have "\<forall>ev \<in> set evs. \<forall>vid. removed_id ev = Some vid \<longrightarrow> vid \<notin> fst ` set cs"
    using finalize_loop_events [of "paras f" "ctxs f" "[]" "ctxs f"] by (simp add: r)
  then show ?thesis
    by (simp add: finalizeOpinions_def r)
qed

lemma before_tick_events:
  "\<exists>new. emitted (before_tick f r) = emitted f @ new
     \<and> (\<forall>ev \<in> set new. \<forall>vid. removed_id ev = Some vid \<longrightarrow>
           vid \<notin> fst ` set (ctxs (before_tick f r)))"
  using finalizeOpinions_events [of "formOpinions (enqueue f) r"] formOpinions_frame [of "enqueue f" r]
    enqueue_frame [of f]
  by (auto simp: before_tick_def)

lemma Round_events:
  "\<exists>new. emitted (snd (Round f r)) = emitted f @ new
     \<and> (\<forall>ev \<in> set new. \<forall>vid. removed_id ev = Some vid \<longrightarrow>
           vid \<notin> fst ` set (ctxs (snd (Round f r))))"
proof -
  obtain new where new: "emitted (before_tick f r) = emitted f @ new"
    "\<forall>ev \<in> set new. \<forall>vid. removed_id ev = Some vid \<longrightarrow> vid \<notin> fst ` set (ctxs (before_tick f r))"
    using before_tick_events by blast
  have keys: "fst ` set (ctxs (snd (Round f r))) = fst ` set (ctxs (before_tick f r))"
    using Round_keys [of f r] by (metis list.set_map)
  let ?q = "queryOpinions (markRound (before_tick f r))"
  have em: "emitted (snd ?q) = emitted f @ new"
    using queryOpinions_frame [of "markRound (before_tick f r)"]
      markRound_frame [of "before_tick f r"] new
    by simp
  show ?thesis
  proof (cases f r rule: Round_cases)
    case (err e f4)
    then have "emitted (snd (Round f r)) = emitted f @ new"
      using em by simp
    then show ?thesis using new keys by auto
  next
    case (ok qs f4)
    let ?ev = "RoundExecuted \<lparr>RandUsed = r, ActiveVoteContexts = ctxs f4,
                  QueriedOpinions_stats = qs\<rparr>"
    have "emitted (snd (Round f r)) = emitted f @ (new @ [?ev])"
      using ok em by simp
    moreover have "\<forall>ev \<in> set (new @ [?ev]). \<forall>vid. removed_id ev = Some vid \<longrightarrow>
           vid \<notin> fst ` set (ctxs (snd (Round f r)))"
      using new keys by auto
    ultimately show ?thesis by blast
  qed
qed

text \<open>The queue-set holds the ids of the queue: in a new engine, and after every \<^verbatim>\<open>Vote\<close>
  and every \<^verbatim>\<open>Round\<close> on an engine where it does.\<close>

lemma queueSet_New:
  "queueSet (New giverFunc weightFunc ps rng) = ID ` set (queue (New giverFunc weightFunc ps rng))"
  by (simp add: New_def)

lemma queueSet_Vote:
  "queueSet f = ID ` set (queue f) \<Longrightarrow>
     queueSet (snd (Vote f vid objectType initOpn))
       = ID ` set (queue (snd (Vote f vid objectType initOpn)))"
  by (simp add: Vote_def NewContext_def)

lemma queueSet_Round:
  "queueSet f = ID ` set (queue f) \<Longrightarrow>
     queueSet (snd (Round f r)) = ID ` set (queue (snd (Round f r)))"
  by (simp add: Round_queueSet)

lemma finalized_histories_event:
  "(vid, h) \<in> set (finalized_histories evs) \<Longrightarrow> \<exists>ev \<in> set evs. removed_id ev = Some vid"
  by (induction evs rule: finalized_histories.induct) auto

lemma Vote_after_Finalized:
  "queueSet f = ID ` set (queue f)
     \<and> (vid, h) \<in> set (finalized_histories
                        (drop (length (emitted f)) (emitted (snd (Round f r)))))
   \<longrightarrow> fst (Vote (snd (Round f r)) vid objectType initOpn) = None"
proof (intro impI, elim conjE)
  assume inv: "queueSet f = ID ` set (queue f)"
    and fin: "(vid, h) \<in> set (finalized_histories
                 (drop (length (emitted f)) (emitted (snd (Round f r)))))"
  obtain new where n: "emitted (snd (Round f r)) = emitted f @ new"
    "\<forall>ev \<in> set new. \<forall>vid. removed_id ev = Some vid \<longrightarrow> vid \<notin> fst ` set (ctxs (snd (Round f r)))"
    using Round_events by blast
  have "(vid, h) \<in> set (finalized_histories new)"
    using fin n(1) by simp
  then have "vid \<notin> fst ` set (ctxs (snd (Round f r)))"
    using n(2) finalized_histories_event by blast
  moreover have "vid \<notin> queueSet (snd (Round f r))"
    using Round_queueSet [of f r] inv by simp
  ultimately show "fst (Vote (snd (Round f r)) vid objectType initOpn) = None"
    by (simp add: Vote_def map_of_None_keys)
qed

text \<open>
  Claim C5. \<^verbatim>\<open>Vote\<close> fails with \<^verbatim>\<open>ErrVoteAlreadyOngoing\<close> exactly when the id is in the
  queue-set or in the registry, and then leaves the engine (queue, queue-set and registry) as
  it was; otherwise it returns no error, appends a new context with the id, the type and the
  opinion history \<open>[initOpn]\<close> to the queue and records the id in the queue-set, leaving the
  registry alone. In particular, when the queue-set holds the ids of the queue and a
  \<^verbatim>\<open>Round\<close> emits \<^verbatim>\<open>Finalized\<close> for an id, submitting that id after the round succeeds.
\<close>

theorem Vote_rejects_ongoing_only:
  "(fst (Vote f vid objectType initOpn) = Some (ErrVoteAlreadyOngoing vid)
      \<longleftrightarrow> vid \<in> queueSet f \<or> vid \<in> fst ` set (ctxs f))
   \<and> (fst (Vote f vid objectType initOpn) = None
      \<longleftrightarrow> \<not> (vid \<in> queueSet f \<or> vid \<in> fst ` set (ctxs f)))
   \<and> (fst (Vote f vid objectType initOpn) \<noteq> None \<longrightarrow> snd (Vote f vid objectType initOpn) = f)
   \<and> (fst (Vote f vid objectType initOpn) = None \<longrightarrow>
        (\<exists>voteCtx. queue (snd (Vote f vid objectType initOpn)) = queue f @ [voteCtx]
           \<and> ID voteCtx = vid \<and> Type voteCtx = objectType \<and> Opinions voteCtx = [initOpn])
        \<and> queueSet (snd (Vote f vid objectType initOpn)) = insert vid (queueSet f)
        \<and> ctxs (snd (Vote f vid objectType initOpn)) = ctxs f)
   \<and> (queueSet f = ID ` set (queue f)
        \<and> (vid, h) \<in> set (finalized_histories
                           (drop (length (emitted f)) (emitted (snd (Round f rand)))))
      \<longrightarrow> fst (Vote (snd (Round f rand)) vid objectType initOpn) = None)"
  by (intro conjI) (rule Vote_cases Vote_after_Finalized)+

theorem Vote_rejects_ongoing_only_witness:
  "fst (Vote fpc_fresh ''x'' ConflictType Like) = None
   \<and> queueSet fpc_x = {''x''}
   \<and> fst (Vote fpc_x ''x'' ConflictType Dislike) = Some (ErrVoteAlreadyOngoing ''x'')
   \<and> snd (Vote fpc_x ''x'' ConflictType Dislike) = fpc_x
   \<and> fst (Vote (snd (Round (run_rounds (Suc (Suc 0)) fpc_ab (Fin (1 / 2))) (Fin (1 / 2))))
            ''a'' ConflictType Dislike) = None"
proof -
  have fresh: "queueSet fpc_fresh = {} \<and> ctxs fpc_fresh = []"
    by (simp add: fpc_fresh_def New_def)
  have x: "queueSet fpc_x = {''x''}"
    by (simp add: fpc_x_def fpc_fresh_def New_def Vote_def)
  have a: "fst (Vote fpc_fresh ''x'' ConflictType Like) = None"
    using Vote_rejects_ongoing_only [of fpc_fresh "''x''" ConflictType Like "[]" "Fin 0"] fresh
    by simp
  have b: "fst (Vote fpc_x ''x'' ConflictType Dislike) = Some (ErrVoteAlreadyOngoing ''x'')
           \<and> snd (Vote fpc_x ''x'' ConflictType Dislike) = fpc_x"
    using Vote_rejects_ongoing_only [of fpc_x "''x''" ConflictType Dislike "[]" "Fin 0"] x
    by simp
  let ?f = "run_rounds (Suc (Suc 0)) fpc_ab (Fin (1 / 2))"
  have h1: "queueSet ?f = ID ` set (queue ?f)"
    by (simp add: Round_queueSet fpc_ab_def Vote_def New_def NewContext_def)
  have h2: "(''a'', [Like, Like, Like]) \<in> set (finalized_histories
               (drop (length (emitted ?f)) (emitted (snd (Round ?f (Fin (1 / 2)))))))"
    by (simp add: engine_defs ex_defs Let_def weighted_loop.simps)
  have c: "fst (Vote (snd (Round ?f (Fin (1 / 2)))) ''a'' ConflictType Dislike) = None"
    using Vote_rejects_ongoing_only
            [of ?f "''a''" ConflictType Dislike "[Like, Like, Like]" "Fin (1 / 2)"] h1 h2
    by blast
  show ?thesis using a x b c by blast
qed

text \<open>
  Claim C6. \<^verbatim>\<open>IntermediateOpinion\<close> returns the last opinion of the context that the
  registry holds for the id, and fails with \<^verbatim>\<open>ErrVotingNotFound\<close> when the registry holds
  none; an id that \<^verbatim>\<open>Vote\<close> has just put into the queue is in the queue-set and is still
  not found.
\<close>

theorem IntermediateOpinion_registry_only:
  "IntermediateOpinion f vid =
     (case map_of (ctxs f) vid of
        Some voteCtx \<Rightarrow> (last (Opinions voteCtx), None)
      | None \<Rightarrow> (Unknown, Some (ErrVotingNotFound vid)))
   \<and> (fst (Vote f vid objectType initOpn) = None \<longrightarrow>
        vid \<in> queueSet (snd (Vote f vid objectType initOpn))
        \<and> snd (IntermediateOpinion (snd (Vote f vid objectType initOpn)) vid)
            = Some (ErrVotingNotFound vid))"
  by (auto simp: IntermediateOpinion_def Vote_def LastOpinion_def split: if_splits option.splits)

theorem IntermediateOpinion_registry_only_witness:
  "IntermediateOpinion (snd (Round fpc_ab (Fin (1 / 2)))) ''b'' = (Like, None)
   \<and> IntermediateOpinion fpc_fresh ''x'' = (Unknown, Some (ErrVotingNotFound ''x''))
   \<and> ''x'' \<in> queueSet fpc_x
   \<and> snd (IntermediateOpinion fpc_x ''x'') = Some (ErrVotingNotFound ''x'')"
proof -
  have a: "IntermediateOpinion (snd (Round fpc_ab (Fin (1 / 2)))) ''b'' = (Like, None)"
    using IntermediateOpinion_registry_only
            [of "snd (Round fpc_ab (Fin (1 / 2)))" "''b''" ConflictType Like]
    by (simp add: engine_defs ex_defs Let_def weighted_loop.simps)
  have fresh: "ctxs fpc_fresh = [] \<and> queueSet fpc_fresh = {}"
    by (simp add: fpc_fresh_def New_def)
  have b: "IntermediateOpinion fpc_fresh ''x'' = (Unknown, Some (ErrVotingNotFound ''x''))"
    using IntermediateOpinion_registry_only [of fpc_fresh "''x''" ConflictType Like] fresh
    by simp
  have ok: "fst (Vote fpc_fresh ''x'' ConflictType Like) = None"
    using fresh by (simp add: Vote_def)
  have c: "''x'' \<in> queueSet fpc_x \<and> snd (IntermediateOpinion fpc_x ''x'') = Some (ErrVotingNotFound ''x'')"
    using IntermediateOpinion_registry_only [of fpc_fresh "''x''" ConflictType Like] ok
    unfolding fpc_x_def by blast
  show ?thesis using a b c by blast
qed

subsection \<open>The bias towards the own opinion\<close>

lemma feq_zero: "feq x (Fin 0) = (x = Fin 0)"
  by (cases x) auto

lemma flt_convert_zero: "flt (ConvertOpinionToFloat64 opn) (Fin 0) = (opn = Unknown)"
  by (cases opn) auto

text \<open>
  Claim C7. \<^verbatim>\<open>biasTowardsOwnOpinion\<close> returns the liked proportion of the context
  unchanged when the own weight is 0, the total weight is 0 or the last own opinion is
  \<open>Unknown\<close> (the one opinion with a negative scalar); otherwise it returns
  \<open>ownMana / totalMana * s + (1 - ownMana / totalMana) * proportionLiked\<close>, where \<open>s\<close> is
  1 for \<open>Like\<close> and 0 for \<open>Dislike\<close>.
\<close>

theorem biasTowardsOwnOpinion_cases:
  "biasTowardsOwnOpinion voteCtx =
     (if OwnWeight (Weights voteCtx) = Fin 0 \<or> TotalWeights (Weights voteCtx) = Fin 0
         \<or> LastOpinion voteCtx = Unknown
      then ProportionLiked voteCtx
      else fadd
             (fmul (fdiv (OwnWeight (Weights voteCtx)) (TotalWeights (Weights voteCtx)))
                (if LastOpinion voteCtx = Like then Fin 1 else Fin 0))
             (fmul (fsub (Fin 1)
                      (fdiv (OwnWeight (Weights voteCtx)) (TotalWeights (Weights voteCtx))))
                (ProportionLiked voteCtx)))
   \<and> (flt (ConvertOpinionToFloat64 (LastOpinion voteCtx)) (Fin 0)
        \<longleftrightarrow> LastOpinion voteCtx = Unknown)"
  by (cases "LastOpinion voteCtx")
     (auto simp: biasTowardsOwnOpinion_def Let_def feq_zero)

theorem biasTowardsOwnOpinion_cases_witness:
  "biasTowardsOwnOpinion ctx_s3 = Fin (9 / 10)
   \<and> biasTowardsOwnOpinion (ctx_s3\<lparr>Weights := \<lparr>OwnWeight = Fin 0, TotalWeights = Fin 10\<rparr>,
                                    ProportionLiked := Fin (4 / 5)\<rparr>) = Fin (4 / 5)
   \<and> biasTowardsOwnOpinion (ctx_s3\<lparr>Opinions := [Like, Unknown],
                                    ProportionLiked := Fin (1 / 5)\<rparr>) = Fin (1 / 5)"
  using biasTowardsOwnOpinion_cases [of ctx_s3]
    biasTowardsOwnOpinion_cases
      [of "ctx_s3\<lparr>Weights := \<lparr>OwnWeight = Fin 0, TotalWeights = Fin 10\<rparr>,
                  ProportionLiked := Fin (4 / 5)\<rparr>"]
    biasTowardsOwnOpinion_cases
      [of "ctx_s3\<lparr>Opinions := [Like, Unknown], ProportionLiked := Fin (1 / 5)\<rparr>"]
  by (simp add: ctx_s3_def LastOpinion_def fsub_def)

subsection \<open>Rounds without anything to vote on\<close>

lemma voteContextIDs_empty:
  "(fst (voteContextIDs f) = [] \<and> snd (voteContextIDs f) = []) = (ctxs f = [])"
proof (cases "ctxs f")
  case Nil
  then show ?thesis by (simp add: voteContextIDs_def)
next
  case (Cons x xs)
  obtain vid c where x: "x = (vid, c)" by (cases x)
  show ?thesis
    by (cases "Type c") (simp_all add: voteContextIDs_def Cons x)
qed

lemma queryOpinions_nothing: "ctxs f = [] \<Longrightarrow> queryOpinions f = (Inr [], f)"
  by (simp add: queryOpinions_def voteContextIDs_def)

lemma queryOpinions_no_givers:
  "ctxs f \<noteq> [] \<Longrightarrow> opinionGiverFunc f () = Inr [] \<Longrightarrow>
     queryOpinions f = (Inl ErrNoOpinionGiversAvailable, f)"
  using voteContextIDs_empty [of f]
  by (auto simp: queryOpinions_def split: prod.splits)

lemma enqueue_nothing: "queue f = [] \<Longrightarrow> enqueue f = f"
  by (simp add: enqueue_def)

lemma formOpinions_nothing: "ctxs f = [] \<Longrightarrow> formOpinions f r = f"
  by (simp add: formOpinions_def)

lemma finalizeOpinions_nothing: "ctxs f = [] \<Longrightarrow> finalizeOpinions f = f"
  by (simp add: finalizeOpinions_def)

lemma markRound_nothing: "ctxs f = [] \<Longrightarrow> markRound f = f"
  by (simp add: markRound_def)

lemma before_tick_nothing: "queue f = [] \<Longrightarrow> ctxs f = [] \<Longrightarrow> before_tick f r = f"
  by (simp add: before_tick_def enqueue_nothing formOpinions_nothing finalizeOpinions_nothing)

text \<open>
  Claim C3, as amended. With an empty queue and an empty registry, \<^verbatim>\<open>Round\<close> returns no
  error, sets the flag of the last round and emits one \<^verbatim>\<open>RoundExecuted\<close> event, whose
  statistics hold the random number, no active context and no queried opinion; nothing else
  of the engine changes.
\<close>

theorem Round_no_submissions:
  "queue f = [] \<and> ctxs f = [] \<longrightarrow>
     Round f rand =
       (None,
        f\<lparr>lastRoundCompletedSuccessfully := True,
          emitted := emitted f @
            [RoundExecuted \<lparr>RandUsed = rand, ActiveVoteContexts = [],
                            QueriedOpinions_stats = []\<rparr>]\<rparr>)"
  by (simp add: Round_alt before_tick_nothing markRound_nothing queryOpinions_nothing)

theorem Round_no_submissions_witness:
  "Round fpc_fresh (Fin (1 / 2)) =
       (None,
        fpc_fresh\<lparr>lastRoundCompletedSuccessfully := True,
          emitted :=
            [RoundExecuted \<lparr>RandUsed = Fin (1 / 2), ActiveVoteContexts = [],
                            QueriedOpinions_stats = []\<rparr>]\<rparr>)"
  using Round_no_submissions [of fpc_fresh "Fin (1 / 2)"]
  by (simp add: fpc_fresh_def New_def)

text \<open>
  Claim C3 as stated fails: on the new engine, to which nothing was ever submitted,
  \<^verbatim>\<open>Round\<close> returns no error and the log, empty before, holds a \<^verbatim>\<open>RoundExecuted\<close> event
  after the call.
\<close>

theorem Round_no_submissions_counterexample:
  "queue fpc_fresh = [] \<and> ctxs fpc_fresh = [] \<and> emitted fpc_fresh = []
   \<and> fst (Round fpc_fresh (Fin (1 / 2))) = None
   \<and> emitted (snd (Round fpc_fresh (Fin (1 / 2)))) =
        [RoundExecuted \<lparr>RandUsed = Fin (1 / 2), ActiveVoteContexts = [],
                        QueriedOpinions_stats = []\<rparr>]
   \<and> rounds_executed (emitted (snd (Round fpc_fresh (Fin (1 / 2))))) = 1"
  by (simp add: engine_defs ex_defs)

subsection \<open>The flag of the last round\<close>

text \<open>No round clears the flag: once a round has succeeded, it stays set.\<close>

lemma Round_keeps_flag:
  "lastRoundCompletedSuccessfully f \<Longrightarrow> lastRoundCompletedSuccessfully (snd (Round f r))"
proof (cases f r rule: Round_cases)
  case (ok qs f4)
  then show ?thesis by simp
next
  case (err e f4)
  assume "lastRoundCompletedSuccessfully f"
  then show ?thesis
    using err queryOpinions_frame [of "markRound (before_tick f r)"]
      markRound_frame [of "before_tick f r"] before_tick_frame [of f r] by simp
qed

text \<open>
  Claim C2 fails on the code. The engine \<open>fpc_outage\<close> has had one successful round on the
  contexts \<open>a\<close> and \<open>b\<close> and has no givers from then on. Its next round returns
  \<^verbatim>\<open>ErrNoOpinionGiversAvailable\<close> and leaves the flag set; the round after that forms a
  third opinion on both contexts and finalizes them.
\<close>

theorem Round_flag_not_reset:
  "lastRoundCompletedSuccessfully fpc_outage
   \<and> fst (Round fpc_outage (Fin (1 / 2))) = Some ErrNoOpinionGiversAvailable
   \<and> lastRoundCompletedSuccessfully (snd (Round fpc_outage (Fin (1 / 2))))
   \<and> finalized_histories (emitted (snd (Round fpc_outage (Fin (1 / 2))))) = []
   \<and> finalized_histories (emitted (run_rounds (Suc (Suc 0)) fpc_outage (Fin (1 / 2)))) =
        [(''a'', [Like, Like, Like]), (''b'', [Like, Like, Like])]"
  by (simp add: engine_defs ex_defs Let_def weighted_loop.simps)

subsection \<open>Rounds without opinion givers\<close>

lemma map_of_map_values:
  "map_of (map (\<lambda>(k, v). (k, g v)) xs) k = map_option g (map_of xs k)"
  by (induction xs) auto

lemma Rounds_formOpinion: "Rounds (formOpinion ps r c) = Rounds c"
  by (simp add: formOpinion_def AddOpinion_def Let_def split: prod.splits)

lemma formOpinions_Rounds:
  "map_of (ctxs (formOpinions f r)) vid = Some c \<Longrightarrow>
     \<exists>c0. map_of (ctxs f) vid = Some c0 \<and> Rounds c = Rounds c0"
  by (auto simp: formOpinions_def map_of_map_values Rounds_formOpinion)

lemma finalize_loop_map_of:
  "map_of (snd (finalize_loop ps xs acc)) vid = Some c \<Longrightarrow> map_of (snd acc) vid = Some c"
proof (induction xs arbitrary: acc)
  case Nil
  then show ?case by simp
next
  case (Cons x xs)
  obtain k voteCtx where x: "x = (k, voteCtx)" by (cases x)
  obtain evs cs where acc: "acc = (evs, cs)" by (cases acc)
  have del: "map_of (AList.delete k cs) vid = Some c \<Longrightarrow> map_of cs vid = Some c"
    by (simp add: AList.delete_conv split: if_splits)
  have step: "map_of (snd (finalize_loop ps xs (evs', AList.delete k cs))) vid = Some c
      \<Longrightarrow> map_of cs vid = Some c" for evs'
    using Cons.IH [of "(evs', AList.delete k cs)"] del by simp
  show ?case
    using Cons.prems step Cons.IH [of "(evs, cs)"]
    by (simp add: x acc split: if_splits)
qed

lemma finalizeOpinions_map_of:
  "map_of (ctxs (finalizeOpinions f)) vid = Some c \<Longrightarrow> map_of (ctxs f) vid = Some c"
  using finalize_loop_map_of [of "paras f" "ctxs f" "([], ctxs f)" vid c]
  by (simp add: finalizeOpinions_def split: prod.splits)

lemma before_tick_Rounds:
  "map_of (ctxs (before_tick f r)) vid = Some c \<Longrightarrow>
     \<exists>c0. map_of (ctxs (enqueue f)) vid = Some c0 \<and> Rounds c = Rounds c0"
  using finalizeOpinions_map_of [of "formOpinions (enqueue f) r" vid c]
    formOpinions_Rounds [of "enqueue f" r vid c]
  by (auto simp: before_tick_def split: if_splits)

lemma markRound_Rounds:
  "map_of (ctxs (markRound f)) vid = Some c \<Longrightarrow>
     \<exists>c0. map_of (ctxs f) vid = Some c0 \<and> Rounds c = Rounds c0 + 1"
  by (auto simp: markRound_def map_of_map_values)

lemma aggregate_step_Rounds:
  "map_of (aggregate_step ps own tot cs entry) vid = Some c \<Longrightarrow>
     \<exists>c0. map_of cs vid = Some c0 \<and> Rounds c = Rounds c0"
  by (cases entry)
     (auto simp: aggregate_step_def map_of_map_entry split: prod.splits if_splits option.splits)

lemma aggregate_Rounds:
  "map_of (aggregate ps own tot voteMap cs) vid = Some c \<Longrightarrow>
     \<exists>c0. map_of cs vid = Some c0 \<and> Rounds c = Rounds c0"
  unfolding aggregate_def
proof (induction voteMap arbitrary: cs c)
  case Nil
  then show ?case by simp
next
  case (Cons e es)
  obtain c1 where "map_of (aggregate_step ps own tot cs e) vid = Some c1" "Rounds c = Rounds c1"
    using Cons.IH [of "aggregate_step ps own tot cs e" c] Cons.prems by auto
  then show ?case
    using aggregate_step_Rounds [of ps own tot cs e vid c1] by auto
qed

lemma queryOpinions_Rounds:
  "map_of (ctxs (snd (queryOpinions f))) vid = Some c \<Longrightarrow>
     \<exists>c0. map_of (ctxs f) vid = Some c0 \<and> Rounds c = Rounds c0"
  by (auto simp: queryOpinions_def Let_def split: prod.splits sum.splits if_splits
      dest: aggregate_Rounds)

lemma Round_ctxs:
  "ctxs (snd (Round f r)) = ctxs (snd (queryOpinions (markRound (before_tick f r))))"
  by (cases f r rule: Round_cases) simp_all

text \<open>Every context that a round leaves in the registry has ticked exactly once.\<close>

lemma Round_ticks_once:
  assumes "map_of (ctxs (snd (Round f r))) vid = Some c"
  shows "\<exists>c0. map_of (ctxs (enqueue f)) vid = Some c0 \<and> Rounds c = Rounds c0 + 1"
proof -
  obtain c1 where c1: "map_of (ctxs (markRound (before_tick f r))) vid = Some c1"
      "Rounds c = Rounds c1"
    using assms queryOpinions_Rounds [of "markRound (before_tick f r)" vid c]
    by (auto simp: Round_ctxs)
  obtain c2 where c2: "map_of (ctxs (before_tick f r)) vid = Some c2" "Rounds c1 = Rounds c2 + 1"
    using markRound_Rounds [OF c1(1)] by auto
  obtain c3 where "map_of (ctxs (enqueue f)) vid = Some c3" "Rounds c2 = Rounds c3"
    using before_tick_Rounds [OF c2(1)] by auto
  then show ?thesis using c1 c2 by auto
qed

lemma Round_no_givers_error:
  assumes "opinionGiverFunc f () = Inr []"
  shows "fst (Round f r) =
           (if ctxs (snd (Round f r)) = [] then None else Some ErrNoOpinionGiversAvailable)"
proof -
  let ?f3 = "markRound (before_tick f r)"
  have sup: "opinionGiverFunc ?f3 () = Inr []"
    using assms markRound_frame [of "before_tick f r"] before_tick_frame [of f r] by simp
  show ?thesis
  proof (cases "ctxs ?f3 = []")
    case True
    then show ?thesis
      using queryOpinions_nothing [of ?f3] by (simp add: Round_alt)
  next
    case False
    then show ?thesis
      using queryOpinions_no_givers [of ?f3] sup by (simp add: Round_alt)
  qed
qed

text \<open>
  While the flag is not set and the supplier returns no giver, a round with something to vote
  on emits nothing, clears nothing and leaves the flag unset; so no number of rounds ever
  emits \<^verbatim>\<open>Failed\<close> (or \<^verbatim>\<open>Finalized\<close>) on such an engine.
\<close>

lemma enqueue_loop_nonempty: "q \<noteq> [] \<or> cs \<noteq> [] \<Longrightarrow> snd (enqueue_loop q qs cs) \<noteq> []"
  by (induction q arbitrary: qs cs) (simp_all add: update_nonempty)

lemma enqueue_nonempty: "queue f \<noteq> [] \<or> ctxs f \<noteq> [] \<Longrightarrow> ctxs (enqueue f) \<noteq> []"
  using enqueue_loop_nonempty [of "queue f" "ctxs f" "queueSet f"]
  by (auto simp: enqueue_def split: prod.splits)

lemma outage_step:
  assumes "\<not> lastRoundCompletedSuccessfully f" "opinionGiverFunc f () = Inr []"
    "queue f \<noteq> [] \<or> ctxs f \<noteq> []"
  shows "Round f r = (Some ErrNoOpinionGiversAvailable, markRound (enqueue f))"
proof -
  have bt: "before_tick f r = enqueue f"
    using assms(1) enqueue_frame [of f] by (simp add: before_tick_def)
  have "ctxs (markRound (enqueue f)) \<noteq> []"
    using enqueue_nonempty [OF assms(3)] by (simp add: markRound_def)
  moreover have "opinionGiverFunc (markRound (enqueue f)) () = Inr []"
    using assms(2) markRound_frame [of "enqueue f"] enqueue_frame [of f] by simp
  ultimately show ?thesis
    using queryOpinions_no_givers [of "markRound (enqueue f)"] by (simp add: Round_alt bt)
qed

lemma outage_never_clears:
  assumes "\<not> lastRoundCompletedSuccessfully f" "opinionGiverFunc f () = Inr []"
    "queue f \<noteq> [] \<or> ctxs f \<noteq> []"
  shows "emitted (run_rounds n f r) = emitted f
     \<and> \<not> lastRoundCompletedSuccessfully (run_rounds n f r)
     \<and> (queue (run_rounds n f r) \<noteq> [] \<or> ctxs (run_rounds n f r) \<noteq> [])"
  using assms
proof (induction n arbitrary: f)
  case 0
  then show ?case by simp
next
  case (Suc n)
  let ?f' = "markRound (enqueue f)"
  have step: "snd (Round f r) = ?f'"
    using outage_step [OF Suc.prems] by simp
  have 1: "\<not> lastRoundCompletedSuccessfully ?f'"
    using Suc.prems(1) markRound_frame [of "enqueue f"] enqueue_frame [of f] by simp
  have 2: "opinionGiverFunc ?f' () = Inr []"
    using Suc.prems(2) markRound_frame [of "enqueue f"] enqueue_frame [of f] by simp
  have 3: "queue ?f' \<noteq> [] \<or> ctxs ?f' \<noteq> []"
    using enqueue_nonempty [OF Suc.prems(3)] by (simp add: markRound_def)
  have 4: "emitted ?f' = emitted f"
    using markRound_frame [of "enqueue f"] enqueue_frame [of f] by simp
  show ?case
    using Suc.IH [OF 1 2 3] 4 by (simp add: step)
qed

text \<open>When the supplier returns an empty list, a round returns
  \<^verbatim>\<open>ErrNoOpinionGiversAvailable\<close> if it leaves a context in the registry and no error if it
  leaves none, and every context it leaves has ticked once.\<close>

lemma Round_without_givers:
  "opinionGiverFunc f () = Inr [] \<longrightarrow>
     fst (Round f rand) =
       (if ctxs (snd (Round f rand)) = [] then None else Some ErrNoOpinionGiversAvailable)
     \<and> (\<forall>vid voteCtx'. map_of (ctxs (snd (Round f rand))) vid = Some voteCtx' \<longrightarrow>
          (\<exists>voteCtx. map_of (ctxs (enqueue f)) vid = Some voteCtx
             \<and> Rounds voteCtx' = Rounds voteCtx + 1))"
  using Round_no_givers_error [of f rand] Round_ticks_once [of f rand] by blast

text \<open>The rounds of the engine \<open>fpc_x\<close>: a new engine whose supplier returns an empty list,
  with \<open>x\<close> submitted before its first round.\<close>

lemma Round_fpc_x: "Round fpc_x r = (Some ErrNoOpinionGiversAvailable, fpc_x_after 1)"
proof -
  have x: "\<not> lastRoundCompletedSuccessfully fpc_x" "opinionGiverFunc fpc_x () = Inr []"
    "queue fpc_x \<noteq> [] \<or> ctxs fpc_x \<noteq> []"
    by (simp_all add: ex_defs New_def Vote_def)
  have "markRound (enqueue fpc_x) = fpc_x_after 1"
    by (simp add: fpc_x_after_def markRound_def enqueue_def ex_defs New_def Vote_def NewContext_def)
  then show ?thesis using outage_step [OF x, of r] by simp
qed

lemma Round_fpc_x_after:
  "Round (fpc_x_after k) r = (Some ErrNoOpinionGiversAvailable, fpc_x_after (k + 1))"
proof -
  have x: "\<not> lastRoundCompletedSuccessfully (fpc_x_after k)"
    "opinionGiverFunc (fpc_x_after k) () = Inr []"
    "queue (fpc_x_after k) \<noteq> [] \<or> ctxs (fpc_x_after k) \<noteq> []"
    by (simp_all add: fpc_x_after_def ex_defs New_def)
  have "markRound (enqueue (fpc_x_after k)) = fpc_x_after (k + 1)"
    by (simp add: fpc_x_after_def markRound_def enqueue_def ex_defs New_def NewContext_def)
  then show ?thesis using outage_step [OF x, of r] by simp
qed

lemma run_rounds_fpc_x_after: "run_rounds n (fpc_x_after k) r = fpc_x_after (k + int n)"
  by (induction n arbitrary: k) (simp_all add: Round_fpc_x_after algebra_simps)

lemma run_rounds_fpc_x: "run_rounds (Suc n) fpc_x r = fpc_x_after (int n + 1)"
  by (simp add: Round_fpc_x run_rounds_fpc_x_after algebra_simps)

text \<open>
  Claim C4 fails on the code. On the engine \<open>fpc_x\<close> the supplier returns an empty list in
  every round and the cap \<^verbatim>\<open>MaxRoundsPerVoteContext\<close> is 3. Every call of \<^verbatim>\<open>Round\<close>
  returns \<^verbatim>\<open>ErrNoOpinionGiversAvailable\<close> and the rounds counter of \<open>x\<close> is \<open>n + 1\<close> after
  \<open>n + 1\<close> rounds, as the claim says; but after any number of rounds the log is empty: no
  \<^verbatim>\<open>Failed\<close> event is ever emitted and \<open>x\<close> stays in the registry.
\<close>

theorem Failed_never_fires_without_givers:
  "opinionGiverFunc (run_rounds n fpc_x r) () = Inr []
   \<and> MaxRoundsPerVoteContext (paras (run_rounds n fpc_x r)) = 3
   \<and> fst (Round (run_rounds n fpc_x r) r) = Some ErrNoOpinionGiversAvailable
   \<and> rounds_of (run_rounds (Suc n) fpc_x r) = [(''x'', int n + 1)]
   \<and> emitted (run_rounds n fpc_x r) = []
   \<and> failed_ids (emitted (run_rounds n fpc_x r)) = []"
proof -
  have after: "opinionGiverFunc (fpc_x_after k) () = Inr []
      \<and> MaxRoundsPerVoteContext (paras (fpc_x_after k)) = 3
      \<and> emitted (fpc_x_after k) = [] \<and> rounds_of (fpc_x_after k) = [(''x'', k)]" for k
    by (simp add: fpc_x_after_def rounds_of_def ex_defs New_def NewContext_def)
  have start: "opinionGiverFunc fpc_x () = Inr [] \<and> MaxRoundsPerVoteContext (paras fpc_x) = 3
      \<and> emitted fpc_x = []"
    by (simp add: ex_defs New_def Vote_def)
  have ticks: "rounds_of (run_rounds (Suc n) fpc_x r) = [(''x'', int n + 1)]"
    using after [of "int n + 1"] by (simp only: run_rounds_fpc_x)
  show ?thesis
  proof (cases n)
    case 0
    then show ?thesis
      using start ticks by (simp add: Round_fpc_x)
  next
    case (Suc m)
    have "run_rounds n fpc_x r = fpc_x_after (int m + 1)"
      unfolding Suc by (rule run_rounds_fpc_x)
    then show ?thesis
      using after [of "int m + 1"] ticks by (simp add: Round_fpc_x_after)
  qed
qed

text \<open>The same outage does clear the context when the flag was set before it: after a round
  on the empty engine, \<open>x\<close> is finalized by the third round without givers, and fails in
  the fourth when ten identical opinions are needed for finalization.\<close>

lemma cleared_when_flag_was_set:
  "opinionGiverFunc fpc_x_late () = Inr []
   \<and> lastRoundCompletedSuccessfully fpc_x_late
   \<and> finalized_histories (emitted (run_rounds (Suc (Suc (Suc 0))) fpc_x_late (Fin (1 / 2))))
       = [(''x'', [Like, Dislike, Dislike])]
   \<and> ctxs (run_rounds (Suc (Suc (Suc 0))) fpc_x_late (Fin (1 / 2))) = []
   \<and> failed_ids (emitted (run_rounds (Suc (Suc (Suc (Suc 0)))) fpc_x_late_long (Fin (1 / 2))))
       = [''x'']
   \<and> ctxs (run_rounds (Suc (Suc (Suc (Suc 0)))) fpc_x_late_long (Fin (1 / 2))) = []"
  by (simp add: fpc_x_late_long_def fpc_x_late_def engine_defs ex_defs Let_def)

subsection \<open>The order in which a response is consumed\<close>

lemma tally_loop_other:
  "x \<notin> set ids \<Longrightarrow>
     map_of (snd (tally_loop ids k opinions n (vm, q))) x = map_of q x"
  by (induction ids arbitrary: k vm q) (auto simp: update_conv')

lemma tally_loop_reads:
  "distinct ids \<Longrightarrow> i < length ids \<Longrightarrow>
     map_of (snd (tally_loop ids k opinions n (vm, q))) (ids ! i) = Some (opinions ! (k + i))"
proof (induction ids arbitrary: k vm q i)
  case Nil
  then show ?case by simp
next
  case (Cons x xs)
  show ?case
  proof (cases i)
    case 0
    then show ?thesis
      using Cons.prems tally_loop_other [of x xs] by (simp add: update_conv')
  next
    case (Suc j)
    then show ?thesis
      using Cons.prems Cons.IH [of j "Suc k"] by simp
  qed
qed

text \<open>What the query task records for the timestamp id at position \<open>i\<close>: the element
  \<open>i\<close> of the response, whatever the number of conflict ids.\<close>

lemma query_task_reads_from_zero:
  assumes "Query g conflictIDs timestampIDs = Inr opinions"
    and "length opinions = length conflictIDs + length timestampIDs"
    and "distinct timestampIDs" and "i < length timestampIDs"
  shows "\<exists>voteMap' qo. query_task conflictIDs timestampIDs (voteMap, allQ) (g, n)
            = (voteMap', allQ @ [qo])
          \<and> map_of (Opinions_queried qo) (timestampIDs ! i) = Some (opinions ! i)"
proof -
  obtain vm1 q1 where t1: "tally_loop conflictIDs 0 opinions n (voteMap, []) = (vm1, q1)"
    by fastforce
  obtain vm2 q2 where t2: "tally_loop timestampIDs 0 opinions n (vm1, q1) = (vm2, q2)"
    by fastforce
  have "map_of q2 (timestampIDs ! i) = Some (opinions ! i)"
    using tally_loop_reads [OF assms(3,4), of 0 opinions n vm1 q1] t2 by simp
  then show ?thesis
    using assms(1,2) t1 t2 by simp
qed

text \<open>
  Claim C1 fails on the code. The engine \<open>fpc_ab\<close> votes on the conflict \<open>a\<close> and the
  timestamp \<open>b\<close>; its one giver answers \<open>[Like, Dislike]\<close>, a response of the required
  length 2 whose element at index \<open>len(conflictIDs) + 0\<close> is \<open>Dislike\<close>. The query task
  tallies and records \<open>Like\<close>, the element at index 0, for \<open>b\<close>, and the round sets the
  liked proportion of \<open>b\<close> to 1.
\<close>

theorem timestamp_opinion_read_at_conflict_index:
  "voteContextIDs (markRound (enqueue fpc_ab)) = ([''a''], [''b''])
   \<and> Query giver_g [''a''] [''b''] = Inr [Like, Dislike]
   \<and> [Like, Dislike] ! (length [''a''] + 0) = Dislike
   \<and> query_task [''a''] [''b''] (createVoteMapForConflicts [''a''] [''b''], []) (giver_g, 1) =
       ([(''a'', [Like]), (''b'', [Like])],
        [\<lparr>OpinionGiverID = ''g'', Opinions_queried = [(''a'', Like), (''b'', Like)],
          TimesCounted = 1\<rparr>])
   \<and> liked_of (snd (Round fpc_ab (Fin (1 / 2)))) = [(''a'', Fin 1), (''b'', Fin 1)]"
  by (simp add: engine_defs ex_defs liked_of_def Let_def weighted_loop.simps)

subsection \<open>The aggregation pass\<close>

lemma count_votes_counts:
  "count_votes votes (n, Fin x) =
     (n - int (count_list votes Unknown), Fin (x + real (count_list votes Like)))"
proof (induction votes arbitrary: n x)
  case Nil
  then show ?case by simp
next
  case (Cons v vs)
  then show ?case by (cases v) simp_all
qed

lemma count_votes_eq:
  "count_votes votes (int (length votes), Fin 0) = (voted_count votes, liked_sum votes)"
  by (simp add: count_votes_counts voted_count_def liked_sum_def)

lemma aggregate_step_map_of:
  "map_of (aggregate_step ps own tot cs (vid, votes)) k =
     (if k = vid \<and> \<not> voted_count votes < MinOpinionsReceived ps
      then map_option
             (\<lambda>voteCtx. voteCtx\<lparr>Weights := \<lparr>OwnWeight = own, TotalWeights = tot\<rparr>,
                ProportionLiked := fdiv (liked_sum votes) (Fin (of_int (voted_count votes)))\<rparr>)
             (map_of cs k)
      else map_of cs k)"
  by (auto simp: aggregate_step_def count_votes_eq map_of_map_entry split: option.splits)

lemma aggregate_other:
  "k \<notin> fst ` set voteMap \<Longrightarrow> map_of (aggregate ps own tot voteMap cs) k = map_of cs k"
  unfolding aggregate_def
proof (induction voteMap arbitrary: cs)
  case Nil
  then show ?case by simp
next
  case (Cons e es)
  obtain vid votes where e: "e = (vid, votes)" by (cases e)
  show ?case using Cons by (simp add: e aggregate_step_map_of)
qed

lemma aggregate_entry:
  "distinct (map fst voteMap) \<Longrightarrow> (vid, votes) \<in> set voteMap \<Longrightarrow>
     map_of (aggregate ps own tot voteMap cs) vid
       = map_of (aggregate_step ps own tot cs (vid, votes)) vid"
proof (induction voteMap arbitrary: cs)
  case Nil
  then show ?case by simp
next
  case (Cons e es)
  obtain k vs where e: "e = (k, vs)" by (cases e)
  show ?case
  proof (cases "e = (vid, votes)")
    case True
    then have "vid \<notin> fst ` set es" using Cons.prems(1) by auto
    then show ?thesis
      using aggregate_other [of vid es ps own tot "aggregate_step ps own tot cs e"] True
      by (simp add: aggregate_def)
  next
    case False
    then have in_es: "(vid, votes) \<in> set es" using Cons.prems(2) by simp
    then have "k \<noteq> vid" using Cons.prems(1) e by force
    then show ?thesis
      using Cons.IH [of "aggregate_step ps own tot cs e"] Cons.prems(1) in_es
      by (simp add: aggregate_def e aggregate_step_map_of)
  qed
qed

lemma distinct_fold_update:
  "distinct (map fst m) \<Longrightarrow> distinct (map fst (foldl (\<lambda>voteMap vid. AList.update vid [] voteMap) m ids))"
  by (induction ids arbitrary: m) (simp_all add: distinct_update)

lemma distinct_createVoteMap: "distinct (map fst (createVoteMapForConflicts cs ts))"
  by (simp add: createVoteMapForConflicts_def distinct_fold_update)

lemma distinct_tally_loop:
  "distinct (map fst (fst acc)) \<Longrightarrow> distinct (map fst (fst (tally_loop ids i opinions n acc)))"
proof (induction ids arbitrary: i acc)
  case Nil
  then show ?case by simp
next
  case (Cons x xs)
  obtain vm q where acc: "acc = (vm, q)" by (cases acc)
  show ?case
    using Cons.prems Cons.IH [of "(append_votes x (opinions ! i) n vm, AList.update x (opinions ! i) q)" "Suc i"]
    by (simp add: acc append_votes_def distinct_update)
qed

lemma distinct_query_task:
  "distinct (map fst (fst acc)) \<Longrightarrow> distinct (map fst (fst (query_task cs ts acc sel)))"
proof -
  assume d: "distinct (map fst (fst acc))"
  obtain vm q where acc: "acc = (vm, q)" by (cases acc)
  obtain g n where sel: "sel = (g, n)" by (cases sel)
  have "distinct (map fst (fst (tally_loop ts 0 ops n (tally_loop cs 0 ops n (vm, [])))))" for ops
    using d distinct_tally_loop [of "(vm, [])" cs 0 ops n]
      distinct_tally_loop [of "tally_loop cs 0 ops n (vm, [])" ts 0 ops n]
    by (simp add: acc)
  then show ?thesis
    using d by (auto simp: acc sel split: sum.splits prod.splits) (metis fst_conv)+
qed

lemma distinct_fold_query_task:
  "distinct (map fst (fst acc)) \<Longrightarrow> distinct (map fst (fst (foldl (query_task cs ts) acc sels)))"
  by (induction sels arbitrary: acc) (simp_all add: distinct_query_task)

lemma distinct_query_tally: "distinct (map fst (query_tally f sample))"
  by (simp add: query_tally_def distinct_fold_query_task distinct_createVoteMap split: prod.splits)

lemma queryOpinions_success:
  assumes "ctxs f \<noteq> []" "opinionGiverFunc f () = Inr opinionGivers" "opinionGivers \<noteq> []"
    "ManaBasedSampling opinionGivers (MaxQuerySampleSize (paras f)) (QuerySampleSize (paras f))
       (opinionGiverRng f) = Inr ((sample, totalOpinionGiversMana), rng')"
    "ownWeightRetrieverFunc f () = Inr ownMana"
  shows "ctxs (snd (queryOpinions f)) =
           aggregate (paras f) ownMana (fadd totalOpinionGiversMana ownMana)
             (query_tally f sample) (ctxs f)"
  using assms voteContextIDs_empty [of f]
  by (auto simp: queryOpinions_def query_tally_def Let_def split: prod.splits)


text \<open>Every id of the registry has an entry in the tally, from the creation of the vote map
  on, and exactly one.\<close>

lemma keys_fold_update:
  "fst ` set (foldl (\<lambda>voteMap vid. AList.update vid [] voteMap) m ids) = set ids \<union> fst ` set m"
  by (induction ids arbitrary: m) (auto simp: dom_update)

lemma keys_createVoteMap:
  "fst ` set (createVoteMapForConflicts cs ts) = set cs \<union> set ts"
  by (auto simp: createVoteMapForConflicts_def keys_fold_update)

lemma keys_voteContextIDs:
  "set (fst (voteContextIDs f)) \<union> set (snd (voteContextIDs f)) = fst ` set (ctxs f)"
proof -
  have "Type c = ConflictType \<or> Type c = TimestampType" for c
    by (cases "Type c") simp_all
  then show ?thesis
    by (force simp: voteContextIDs_def)
qed

lemma keys_tally_loop:
  "fst ` set (fst (tally_loop ids i opinions n acc)) = set ids \<union> fst ` set (fst acc)"
proof (induction ids arbitrary: i acc)
  case Nil
  then show ?case by simp
next
  case (Cons x xs)
  obtain vm q where acc: "acc = (vm, q)" by (cases acc)
  show ?case
    using Cons.IH [of "Suc i" "(append_votes x (opinions ! i) n vm, AList.update x (opinions ! i) q)"]
    by (auto simp: acc append_votes_def dom_update)
qed

lemma fst_query_task:
  "fst (query_task cs ts (vm, q) (g, n)) =
     (case Query g cs ts of
        Inl e \<Rightarrow> vm
      | Inr ops \<Rightarrow>
          if length ops \<noteq> length cs + length ts then vm
          else fst (tally_loop ts 0 ops n (tally_loop cs 0 ops n (vm, []))))"
  by (simp split: sum.splits prod.splits)

lemma keys_query_task:
  assumes "set cs \<union> set ts \<subseteq> fst ` set (fst acc)"
  shows "fst ` set (fst (query_task cs ts acc sel)) = fst ` set (fst acc)"
proof -
  obtain vm q where acc: "acc = (vm, q)" by (cases acc)
  obtain g n where sel: "sel = (g, n)" by (cases sel)
  have "fst ` set (fst (tally_loop ts 0 ops n (tally_loop cs 0 ops n (vm, [])))) = fst ` set vm"
    for ops
    using assms keys_tally_loop [of ts 0 ops n "tally_loop cs 0 ops n (vm, [])"]
      keys_tally_loop [of cs 0 ops n "(vm, [])"]
    by (auto simp: acc)
  then show ?thesis
    unfolding acc sel fst_query_task by (simp split: sum.splits)
qed

lemma keys_fold_query_task:
  "set cs \<union> set ts \<subseteq> fst ` set (fst acc) \<Longrightarrow>
     fst ` set (fst (foldl (query_task cs ts) acc sels)) = fst ` set (fst acc)"
proof (induction sels arbitrary: acc)
  case Nil
  then show ?case by simp
next
  case (Cons s sels)
  have "set cs \<union> set ts \<subseteq> fst ` set (fst (query_task cs ts acc s))"
    using Cons.prems keys_query_task [OF Cons.prems, of s] by simp
  then show ?case
    using Cons.IH [of "query_task cs ts acc s"] keys_query_task [OF Cons.prems, of s] by simp
qed

lemma keys_query_tally: "fst ` set (query_tally f sample) = fst ` set (ctxs f)"
proof -
  obtain cs ts where ids: "voteContextIDs f = (cs, ts)" by fastforce
  have "fst ` set (query_tally f sample) = set cs \<union> set ts"
    using keys_fold_query_task [of cs ts "(createVoteMapForConflicts cs ts, [])" sample]
    by (simp add: query_tally_def ids keys_createVoteMap)
  then show ?thesis
    using keys_voteContextIDs [of f] by (simp add: ids)
qed

lemma query_tally_entry:
  "map_of (ctxs f) vid = Some voteCtx \<Longrightarrow> \<exists>votes. map_of (query_tally f sample) vid = Some votes"
proof -
  assume "map_of (ctxs f) vid = Some voteCtx"
  then have "vid \<in> fst ` set (ctxs f)" by (force dest: map_of_SomeD)
  then have "vid \<in> fst ` set (query_tally f sample)" by (simp add: keys_query_tally)
  then show ?thesis
    by (cases "map_of (query_tally f sample) vid") (simp_all add: map_of_eq_None_iff)
qed


lemma tally_loop_votes_other:
  "x \<notin> set ids \<Longrightarrow> map_of (fst (tally_loop ids k ops n (vm, q))) x = map_of vm x"
  by (induction ids arbitrary: k vm q) (auto simp: append_votes_def update_conv')

lemma tally_loop_votes:
  "distinct ids \<Longrightarrow> i < length ids \<Longrightarrow>
     map_of (fst (tally_loop ids k ops n (vm, q))) (ids ! i) =
       Some ((case map_of vm (ids ! i) of None \<Rightarrow> [] | Some votes \<Rightarrow> votes)
               @ replicate (nat n) (ops ! (k + i)))"
proof (induction ids arbitrary: k vm q i)
  case Nil
  then show ?case by simp
next
  case (Cons x xs)
  show ?case
  proof (cases i)
    case 0
    then show ?thesis
      using Cons.prems tally_loop_votes_other [of x xs]
      by (simp add: append_votes_def update_conv')
  next
    case (Suc j)
    then have "xs ! j \<noteq> x" using Cons.prems by auto
    then show ?thesis
      using Suc Cons.prems Cons.IH [of j "Suc k"]
      by (simp add: append_votes_def update_conv')
  qed
qed

lemma query_task_votes:
  assumes "distinct (cs @ ts)"
    and "(i < length cs \<and> vid = cs ! i) \<or> (i < length ts \<and> vid = ts ! i)"
    and "map_of vm vid = Some old"
  shows "map_of (fst (query_task cs ts (vm, q) sel)) vid = Some (old @ votes_from i cs ts sel)"
proof -
  obtain g n where sel: "sel = (g, n)" by (cases sel)
  have loops: "map_of (fst (tally_loop ts 0 ops n (tally_loop cs 0 ops n (vm, [])))) vid
                 = Some (old @ replicate (nat n) (ops ! i))" for ops
  proof -
    obtain vm1 q1 where t1: "tally_loop cs 0 ops n (vm, []) = (vm1, q1)" by fastforce
    from assms(2) show ?thesis
    proof
      assume c: "i < length cs \<and> vid = cs ! i"
      then have "vid \<in> set cs" by simp
      then have "vid \<notin> set ts" using assms(1) by auto
      moreover have "map_of vm1 vid = Some (old @ replicate (nat n) (ops ! i))"
        using tally_loop_votes [of cs i 0 ops n vm "[]"] assms(1,3) c t1 by simp
      ultimately show ?thesis
        using tally_loop_votes_other [of vid ts 0 ops n vm1 q1] by (simp add: t1)
    next
      assume t: "i < length ts \<and> vid = ts ! i"
      then have "vid \<in> set ts" by simp
      then have "vid \<notin> set cs" using assms(1) by auto
      then have "map_of vm1 vid = Some old"
        using tally_loop_votes_other [of vid cs 0 ops n vm "[]"] assms(3) t1 by simp
      then show ?thesis
        using tally_loop_votes [of ts i 0 ops n vm1 q1] assms(1) t by (simp add: t1)
    qed
  qed
  show ?thesis
    unfolding sel fst_query_task using assms(3) loops
    by (simp add: votes_from_def split: sum.splits)
qed

lemma fold_query_task_votes:
  assumes "distinct (cs @ ts)"
    and "(i < length cs \<and> vid = cs ! i) \<or> (i < length ts \<and> vid = ts ! i)"
  shows "map_of (fst acc) vid = Some old \<Longrightarrow>
     map_of (fst (foldl (query_task cs ts) acc sels)) vid
       = Some (old @ concat (map (votes_from i cs ts) sels))"
proof (induction sels arbitrary: acc old)
  case Nil
  then show ?case by simp
next
  case (Cons s sels)
  obtain vm q where acc: "acc = (vm, q)" by (cases acc)
  have "map_of (fst (query_task cs ts acc s)) vid = Some (old @ votes_from i cs ts s)"
    using query_task_votes [OF assms, of vm old q s] Cons.prems by (simp add: acc)
  then show ?case
    using Cons.IH [of "query_task cs ts acc s" "old @ votes_from i cs ts s"] by simp
qed

lemma map_of_fold_update:
  "map_of (foldl (\<lambda>voteMap vid. AList.update vid [] voteMap) m ids) x =
     (if x \<in> set ids then Some [] else map_of m x)"
  by (induction ids arbitrary: m) (auto simp: update_conv')

lemma map_of_createVoteMap:
  "x \<in> set cs \<union> set ts \<Longrightarrow> map_of (createVoteMapForConflicts cs ts) x = Some []"
  by (auto simp: createVoteMapForConflicts_def map_of_fold_update)

lemma distinct_voteContextIDs:
  assumes "distinct (map fst (ctxs f))"
  shows "distinct (fst (voteContextIDs f) @ snd (voteContextIDs f))"
proof -
  have "set (fst (voteContextIDs f)) \<inter> set (snd (voteContextIDs f)) = {}"
  proof (rule ccontr)
    assume "set (fst (voteContextIDs f)) \<inter> set (snd (voteContextIDs f)) \<noteq> {}"
    then obtain k c1 c2 where "(k, c1) \<in> set (ctxs f)" "Type c1 = ConflictType"
      "(k, c2) \<in> set (ctxs f)" "Type c2 = TimestampType"
      by (auto simp: voteContextIDs_def)
    then show False
      using eq_key_imp_eq_value [OF assms, of k c1 c2] by simp
  qed
  then show ?thesis
    using assms by (simp add: voteContextIDs_def distinct_map_filter)
qed

lemma query_tally_votes:
  assumes "distinct (map fst (ctxs f))" and "voteContextIDs f = (cs, ts)"
    and "(i < length cs \<and> vid = cs ! i) \<or> (i < length ts \<and> vid = ts ! i)"
  shows "map_of (query_tally f sample) vid = Some (concat (map (votes_from i cs ts) sample))"
proof -
  have d: "distinct (cs @ ts)"
    using distinct_voteContextIDs [OF assms(1)] assms(2) by simp
  have "vid \<in> set cs \<union> set ts" using assms(3) by auto
  then have "map_of (fst (createVoteMapForConflicts cs ts, [])) vid = Some []"
    by (simp add: map_of_createVoteMap)
  then show ?thesis
    using fold_query_task_votes [OF d assms(3), of "(createVoteMapForConflicts cs ts, [])" "[]" sample]
    by (simp add: query_tally_def assms(2))
qed

lemma query_tally_unique:
  "map_of (query_tally f sample) vid = Some votes \<Longrightarrow>
     (vid, votes') \<in> set (query_tally f sample) \<Longrightarrow> votes' = votes"
  using distinct_query_tally [of f sample] by (simp add: map_of_is_SomeI)

text \<open>
  Claim C9. In a round whose query stage succeeds, every id of the registry has exactly one
  tally in the vote map that the fan-out has built. On its votes the counting loop computes
  \<open>votedCount\<close> (the size of the tally minus the number of \<open>Unknown\<close>) and \<open>likedSum\<close>
  (the number of \<open>Like\<close>). If \<open>votedCount\<close> is below \<^verbatim>\<open>MinOpinionsReceived\<close>, the context
  of the id is after the pass what it was before, liked proportion and weights included;
  otherwise its weights are \<open>(ownMana, totalMana)\<close>, with \<open>totalMana\<close> the sampled total
  plus \<open>ownMana\<close>, and its liked proportion is \<open>likedSum / votedCount\<close>, nothing else of it
  being changed. An id that no giver has answered has the empty tally and falls under the
  same rule.
\<close>

theorem aggregation_respects_minimum:
  "ctxs f \<noteq> [] \<and> opinionGiverFunc f () = Inr opinionGivers \<and> opinionGivers \<noteq> []
   \<and> ManaBasedSampling opinionGivers (MaxQuerySampleSize (paras f)) (QuerySampleSize (paras f))
        (opinionGiverRng f) = Inr ((sample, totalOpinionGiversMana), rng')
   \<and> ownWeightRetrieverFunc f () = Inr ownMana
   \<and> map_of (ctxs f) vid = Some voteCtx
   \<longrightarrow>
     (\<exists>votes.
        map_of (query_tally f sample) vid = Some votes
        \<and> (\<forall>votes'. (vid, votes') \<in> set (query_tally f sample) \<longrightarrow> votes' = votes)
        \<and> count_votes votes (int (length votes), Fin 0) = (voted_count votes, liked_sum votes)
        \<and> map_of (ctxs (snd (queryOpinions f))) vid =
            Some (if voted_count votes < MinOpinionsReceived (paras f) then voteCtx
                  else voteCtx\<lparr>Weights := \<lparr>OwnWeight = ownMana,
                                             TotalWeights = fadd totalOpinionGiversMana ownMana\<rparr>,
                                ProportionLiked :=
                                  fdiv (liked_sum votes) (Fin (of_int (voted_count votes)))\<rparr>))"
proof (intro impI, elim conjE)
  assume h: "ctxs f \<noteq> []" "opinionGiverFunc f () = Inr opinionGivers" "opinionGivers \<noteq> []"
    "ManaBasedSampling opinionGivers (MaxQuerySampleSize (paras f)) (QuerySampleSize (paras f))
        (opinionGiverRng f) = Inr ((sample, totalOpinionGiversMana), rng')"
    "ownWeightRetrieverFunc f () = Inr ownMana"
    and c: "map_of (ctxs f) vid = Some voteCtx"
  obtain votes where v: "map_of (query_tally f sample) vid = Some votes"
    using query_tally_entry [OF c] by blast
  then have e: "(vid, votes) \<in> set (query_tally f sample)"
    by (rule map_of_SomeD)
  have u: "\<forall>votes'. (vid, votes') \<in> set (query_tally f sample) \<longrightarrow> votes' = votes"
    using query_tally_unique [OF v] by blast
  have "map_of (ctxs (snd (queryOpinions f))) vid =
          map_of (aggregate_step (paras f) ownMana (fadd totalOpinionGiversMana ownMana) (ctxs f)
                    (vid, votes)) vid"
    using queryOpinions_success [OF h] aggregate_entry [OF distinct_query_tally e] by simp
  then have r: "map_of (ctxs (snd (queryOpinions f))) vid =
         Some (if voted_count votes < MinOpinionsReceived (paras f) then voteCtx
               else voteCtx\<lparr>Weights := \<lparr>OwnWeight = ownMana,
                                          TotalWeights = fadd totalOpinionGiversMana ownMana\<rparr>,
                             ProportionLiked :=
                               fdiv (liked_sum votes) (Fin (of_int (voted_count votes)))\<rparr>)"
    using c by (simp add: aggregate_step_map_of)
  show "\<exists>votes.
        map_of (query_tally f sample) vid = Some votes
        \<and> (\<forall>votes'. (vid, votes') \<in> set (query_tally f sample) \<longrightarrow> votes' = votes)
        \<and> count_votes votes (int (length votes), Fin 0) = (voted_count votes, liked_sum votes)
        \<and> map_of (ctxs (snd (queryOpinions f))) vid =
            Some (if voted_count votes < MinOpinionsReceived (paras f) then voteCtx
                  else voteCtx\<lparr>Weights := \<lparr>OwnWeight = ownMana,
                                             TotalWeights = fadd totalOpinionGiversMana ownMana\<rparr>,
                                ProportionLiked :=
                                  fdiv (liked_sum votes) (Fin (of_int (voted_count votes)))\<rparr>)"
    using v u r count_votes_eq [of votes] by blast
qed

lemma sample_g:
  "ManaBasedSampling [giver_g] 2 1 ex_rng = Inr (([(giver_g, 1)], Fin 1), ex_rng\<lparr>cursor := 1\<rparr>)"
  by (simp add: engine_defs ex_defs Let_def weighted_loop.simps)

lemma sample_s:
  "ManaBasedSampling [giver_s] 2 1 ex_rng = Inr (([(giver_s, 1)], Fin 1), ex_rng\<lparr>cursor := 1\<rparr>)"
  by (simp add: engine_defs ex_defs giver_s_def answer_error_def Let_def weighted_loop.simps)

theorem aggregation_respects_minimum_witness:
  "map_of (ctxs fpc_ab_ticked) ''b'' = Some (NewContext ''b'' TimestampType Like\<lparr>Rounds := 1\<rparr>)
   \<and> map_of (ctxs (snd (queryOpinions fpc_ab_ticked))) ''b'' =
       Some (NewContext ''b'' TimestampType Like
               \<lparr>Rounds := 1, Weights := \<lparr>OwnWeight = Fin 0, TotalWeights = Fin 1\<rparr>,
                ProportionLiked := Fin 1\<rparr>)
   \<and> map_of (ctxs (snd (queryOpinions fpc_ab_strict))) ''b'' =
       Some (NewContext ''b'' TimestampType Like\<lparr>Rounds := 1\<rparr>)
   \<and> query_tally fpc_ab_silent [(giver_s, 1)] = [(''a'', []), (''b'', [])]
   \<and> map_of (ctxs (snd (queryOpinions fpc_ab_silent))) ''b'' =
       Some (NewContext ''b'' TimestampType Like
               \<lparr>Rounds := 1, Weights := \<lparr>OwnWeight = Fin 0, TotalWeights = Fin 1\<rparr>,
                ProportionLiked := NaN\<rparr>)"
proof -
  have t: "ctxs fpc_ab_ticked \<noteq> [] \<and> opinionGiverFunc fpc_ab_ticked () = Inr [giver_g]
      \<and> ownWeightRetrieverFunc fpc_ab_ticked () = Inr (Fin 0)
      \<and> opinionGiverRng fpc_ab_ticked = ex_rng \<and> paras fpc_ab_ticked = ex_paras
      \<and> query_tally fpc_ab_ticked [(giver_g, 1)] = [(''a'', [Like]), (''b'', [Like])]
      \<and> map_of (ctxs fpc_ab_ticked) ''b'' = Some (NewContext ''b'' TimestampType Like\<lparr>Rounds := 1\<rparr>)"
    by (simp add: fpc_ab_ticked_def query_tally_def engine_defs ex_defs)
  have s: "ctxs fpc_ab_strict \<noteq> [] \<and> opinionGiverFunc fpc_ab_strict () = Inr [giver_g]
      \<and> ownWeightRetrieverFunc fpc_ab_strict () = Inr (Fin 0)
      \<and> opinionGiverRng fpc_ab_strict = ex_rng
      \<and> paras fpc_ab_strict = ex_paras\<lparr>MinOpinionsReceived := 2\<rparr>
      \<and> query_tally fpc_ab_strict [(giver_g, 1)] = [(''a'', [Like]), (''b'', [Like])]
      \<and> map_of (ctxs fpc_ab_strict) ''b'' = Some (NewContext ''b'' TimestampType Like\<lparr>Rounds := 1\<rparr>)"
    by (simp add: fpc_ab_strict_def fpc_ab_ticked_def query_tally_def engine_defs ex_defs)
  have n: "ctxs fpc_ab_silent \<noteq> [] \<and> opinionGiverFunc fpc_ab_silent () = Inr [giver_s]
      \<and> ownWeightRetrieverFunc fpc_ab_silent () = Inr (Fin 0)
      \<and> opinionGiverRng fpc_ab_silent = ex_rng
      \<and> paras fpc_ab_silent = ex_paras\<lparr>MinOpinionsReceived := 0\<rparr>
      \<and> query_tally fpc_ab_silent [(giver_s, 1)] = [(''a'', []), (''b'', [])]
      \<and> map_of (ctxs fpc_ab_silent) ''b'' = Some (NewContext ''b'' TimestampType Like\<lparr>Rounds := 1\<rparr>)"
    by (simp add: fpc_ab_silent_def fpc_ab_strict_def fpc_ab_ticked_def query_tally_def
        silent_giver_def giver_s_def answer_error_def engine_defs ex_defs)
  have p: "MaxQuerySampleSize ex_paras = 2 \<and> QuerySampleSize ex_paras = 1
      \<and> MinOpinionsReceived ex_paras = 1"
    by (simp add: ex_paras_def)
  have v: "voted_count [Like] = 1 \<and> liked_sum [Like] = Fin 1
      \<and> voted_count [] = 0 \<and> liked_sum [] = Fin 0"
    by (simp add: voted_count_def liked_sum_def)
  have a: "map_of (ctxs (snd (queryOpinions fpc_ab_ticked))) ''b'' =
       Some (NewContext ''b'' TimestampType Like
               \<lparr>Rounds := 1, Weights := \<lparr>OwnWeight = Fin 0, TotalWeights = Fin 1\<rparr>,
                ProportionLiked := Fin 1\<rparr>)"
    using aggregation_respects_minimum [of fpc_ab_ticked "[giver_g]" "[(giver_g, 1)]" "Fin 1"
        "ex_rng\<lparr>cursor := 1\<rparr>" "Fin 0" "''b''"
        "NewContext ''b'' TimestampType Like\<lparr>Rounds := 1\<rparr>"] t p v sample_g
    by (simp add: NewContext_def)
  have b: "map_of (ctxs (snd (queryOpinions fpc_ab_strict))) ''b'' =
       Some (NewContext ''b'' TimestampType Like\<lparr>Rounds := 1\<rparr>)"
    using aggregation_respects_minimum [of fpc_ab_strict "[giver_g]" "[(giver_g, 1)]" "Fin 1"
        "ex_rng\<lparr>cursor := 1\<rparr>" "Fin 0" "''b''"
        "NewContext ''b'' TimestampType Like\<lparr>Rounds := 1\<rparr>"] s p v sample_g
    by simp
  have c: "map_of (ctxs (snd (queryOpinions fpc_ab_silent))) ''b'' =
       Some (NewContext ''b'' TimestampType Like
               \<lparr>Rounds := 1, Weights := \<lparr>OwnWeight = Fin 0, TotalWeights = Fin 1\<rparr>,
                ProportionLiked := NaN\<rparr>)"
    using aggregation_respects_minimum [of fpc_ab_silent "[giver_s]" "[(giver_s, 1)]" "Fin 1"
        "ex_rng\<lparr>cursor := 1\<rparr>" "Fin 0" "''b''"
        "NewContext ''b'' TimestampType Like\<lparr>Rounds := 1\<rparr>"] n p v sample_s
    by (simp add: NewContext_def)
  show ?thesis using t n a b c by simp
qed

subsection \<open>The samplers\<close>

lemmas giver_defs = giver_g_def giver_h_def giver_p_def giver_q_def answer_like_dislike_def
  ex_rng_def ex_rng_mixed_def

lemma mana_totals_eq:
  "mana_totals gs t ts =
     (foldl fadd t (map Mana gs),
      ts @ map (\<lambda>k. foldl fadd t (map Mana (take (Suc k) gs))) [0..<length gs])"
proof (induction gs arbitrary: t ts)
  case Nil
  then show ?case by simp
next
  case (Cons g gs)
  have "[0..<Suc (length gs)] = 0 # map Suc [0..<length gs]"
    by (simp add: upt_conv_Cons map_Suc_upt del: upt_Suc)
  then show ?case
    by (simp add: Cons.IH comp_def del: upt_Suc)
qed

lemma mana_totals_spec:
  "mana_totals opinionGivers (Fin 0) [] = (total_mana opinionGivers, prefix_sums opinionGivers)"
  by (simp add: mana_totals_eq total_mana_def prefix_sums_def)

lemma map_of_increment:
  "map_of (increment k m) g =
     (if g = k then Some ((case map_of m k of None \<Rightarrow> 0 | Some c \<Rightarrow> c) + 1) else map_of m g)"
  by (simp add: increment_def update_conv')

lemma distinct_increment: "distinct (map fst m) \<Longrightarrow> distinct (map fst (increment k m))"
  by (simp add: increment_def distinct_update)

lemma keys_increment: "fst ` set (increment k m) = insert k (fst ` set m)"
  by (simp add: increment_def dom_update)

lemma length_increment:
  "length (increment k m) = (if k \<in> fst ` set m then length m else Suc (length m))"
  using arg_cong [OF update_keys [of k "(case map_of m k of None \<Rightarrow> 0 | Some c \<Rightarrow> c) + 1" m], of length]
  by (simp add: increment_def)

lemma sum_update:
  "sum_list (map snd (AList.update k (v::int) m)) =
     sum_list (map snd m) + v - (case map_of m k of None \<Rightarrow> 0 | Some c \<Rightarrow> c)"
  by (induction m) auto

lemma sum_increment: "sum_list (map snd (increment k m)) = sum_list (map snd m) + 1"
  by (simp add: increment_def sum_update)

lemma positive_update:
  "\<forall>c \<in> snd ` set m. 1 \<le> c \<Longrightarrow> 1 \<le> v \<Longrightarrow> \<forall>c \<in> snd ` set (AList.update k v m). (1::int) \<le> c"
  by (induction m) auto

lemma positive_increment:
  assumes "\<forall>c \<in> snd ` set m. 1 \<le> c"
  shows "\<forall>c \<in> snd ` set (increment k m). 1 \<le> c"
proof -
  have "0 \<le> (case map_of m k of None \<Rightarrow> 0 | Some c \<Rightarrow> c)"
  proof (cases "map_of m k")
    case None
    then show ?thesis by simp
  next
    case (Some c)
    then have "c \<in> snd ` set m" by (force dest: map_of_SomeD)
    then show ?thesis using assms Some by force
  qed
  then show ?thesis
    unfolding increment_def using assms by (intro positive_update) auto
qed

lemma count_picks_Cons: "count_picks (k # ks) m = count_picks ks (increment k m)"
  by (simp add: count_picks_def)

lemma count_picks_append: "count_picks (ks @ ks') m = count_picks ks' (count_picks ks m)"
  by (simp add: count_picks_def)

lemma count_picks_props:
  "distinct (map fst m) \<Longrightarrow> \<forall>c \<in> snd ` set m. 1 \<le> c \<Longrightarrow>
     distinct (map fst (count_picks ks m))
     \<and> (\<forall>c \<in> snd ` set (count_picks ks m). 1 \<le> c)
     \<and> fst ` set (count_picks ks m) = set ks \<union> fst ` set m
     \<and> sum_list (map snd (count_picks ks m)) = sum_list (map snd m) + int (length ks)
     \<and> (\<forall>g. map_of (count_picks ks m) g =
            (if g \<in> set ks
             then Some ((case map_of m g of None \<Rightarrow> 0 | Some c \<Rightarrow> c) + int (count_list ks g))
             else map_of m g))"
proof (induction ks arbitrary: m)
  case Nil
  then show ?case by (simp add: count_picks_def)
next
  case (Cons k ks)
  have d: "distinct (map fst (increment k m))" using Cons.prems(1) by (rule distinct_increment)
  have p: "\<forall>c \<in> snd ` set (increment k m). 1 \<le> c" using Cons.prems(2) by (rule positive_increment)
  note IH = Cons.IH [OF d p]
  show ?case
    unfolding count_picks_Cons
    using IH by (auto simp: keys_increment sum_increment map_of_increment)
qed


lemma Intn_pos:
  "0 < n \<Longrightarrow> Intn rng (int n) =
     Inr (int (int_draws rng (cursor rng) mod n), rng\<lparr>cursor := Suc (cursor rng)\<rparr>)"
  by (simp add: Intn_def zmod_int)

lemma uniform_loop_eq:
  "opinionGivers \<noteq> [] \<Longrightarrow>
     uniform_loop opinionGivers querySampleSize i m rng =
       Inr (count_picks (uniform_picks opinionGivers rng (nat (querySampleSize - i))) m,
            rng\<lparr>cursor := cursor rng + nat (querySampleSize - i)\<rparr>)"
proof (induction opinionGivers querySampleSize i m rng rule: uniform_loop.induct)
  case (1 opinionGivers querySampleSize i m rng)
  show ?case
  proof (cases "i < querySampleSize")
    case False
    then show ?thesis
      by (subst uniform_loop.simps) (simp add: count_picks_def)
  next
    case True
    let ?k = "int_draws rng (cursor rng) mod length opinionGivers"
    let ?rng = "rng\<lparr>cursor := Suc (cursor rng)\<rparr>"
    have intn: "Intn rng (int (length opinionGivers)) = Inr (int ?k, ?rng)"
      using "1.prems" by (simp add: Intn_pos)
    have n: "nat (querySampleSize - i) = Suc (nat (querySampleSize - (i + 1)))"
      using True by simp
    have IH: "uniform_loop opinionGivers querySampleSize (i + 1)
                (increment (opinionGivers ! nat (int ?k)) m) ?rng =
              Inr (count_picks (uniform_picks opinionGivers ?rng (nat (querySampleSize - (i + 1))))
                     (increment (opinionGivers ! nat (int ?k)) m),
                   ?rng\<lparr>cursor := cursor ?rng + nat (querySampleSize - (i + 1))\<rparr>)"
      using "1.IH" [OF True intn refl "1.prems"] .
    show ?thesis
      apply (subst uniform_loop.simps)
      using IH by (simp add: True intn n count_picks_Cons)
  qed
qed

lemma weighted_loop_eq:
  "\<exists>d. d \<le> nat (maxQuerySampleSize - i)
     \<and> weighted_loop opinionGivers totals totalMana maxQuerySampleSize querySampleSize i m rng =
         (count_picks (weighted_picks opinionGivers totals totalMana rng d) m,
          rng\<lparr>cursor := cursor rng + d\<rparr>)
     \<and> (d < nat (maxQuerySampleSize - i) \<longrightarrow>
          querySampleSize \<le>
            int (length (count_picks (weighted_picks opinionGivers totals totalMana rng d) m)))
     \<and> (\<forall>d' < d.
          int (length (count_picks (weighted_picks opinionGivers totals totalMana rng d') m))
            < querySampleSize)"
proof (induction opinionGivers totals totalMana maxQuerySampleSize querySampleSize i m rng
    rule: weighted_loop.induct)
  case (1 gs ts M mq q i m rng)
  show ?case
  proof (cases "i < mq \<and> int (length m) < q")
    case False
    have "weighted_loop gs ts M mq q i m rng = (m, rng)"
      by (subst weighted_loop.simps) (simp add: False)
    then show ?thesis
      using False by (intro exI [of _ 0]) (auto simp: count_picks_def)
  next
    case True
    let ?rng = "rng\<lparr>cursor := Suc (cursor rng)\<rparr>"
    let ?pick = "case select_index (fmul (Fin (float_draws rng (cursor rng))) M) ts 0 of
                   None \<Rightarrow> [] | Some idx \<Rightarrow> [gs ! idx]"
    let ?m = "case select_index (fmul (fst (Float64 rng)) M) ts 0 of
                None \<Rightarrow> m | Some idx \<Rightarrow> increment (gs ! idx) m"
    have m1: "?m = count_picks ?pick m"
      by (simp add: Float64_def count_picks_def split: option.splits)
    have step: "weighted_loop gs ts M mq q i m rng = weighted_loop gs ts M mq q (i + 1) ?m ?rng"
      using True by (subst weighted_loop.simps) (simp add: Float64_def)
    have picks: "count_picks (weighted_picks gs ts M rng (Suc d)) m
                   = count_picks (weighted_picks gs ts M ?rng d) ?m" for d
      by (simp add: m1 count_picks_append)
    obtain d where d: "d \<le> nat (mq - (i + 1))"
      "weighted_loop gs ts M mq q (i + 1) ?m ?rng =
         (count_picks (weighted_picks gs ts M ?rng d) ?m, ?rng\<lparr>cursor := cursor ?rng + d\<rparr>)"
      "d < nat (mq - (i + 1)) \<longrightarrow>
         q \<le> int (length (count_picks (weighted_picks gs ts M ?rng d) ?m))"
      "\<forall>d' < d. int (length (count_picks (weighted_picks gs ts M ?rng d') ?m)) < q"
      using "1.IH" [OF True] by (auto simp: Float64_def)
    have le: "Suc d \<le> nat (mq - i)" using d(1) True by linarith
    have early: "Suc d < nat (mq - i) \<longrightarrow>
        q \<le> int (length (count_picks (weighted_picks gs ts M rng (Suc d)) m))"
    proof
      assume "Suc d < nat (mq - i)"
      then have "d < nat (mq - (i + 1))" by linarith
      then show "q \<le> int (length (count_picks (weighted_picks gs ts M rng (Suc d)) m))"
        using d(3) unfolding picks by blast
    qed
    have before: "\<forall>d' < Suc d. int (length (count_picks (weighted_picks gs ts M rng d') m)) < q"
    proof (intro allI impI)
      fix d' assume "d' < Suc d"
      show "int (length (count_picks (weighted_picks gs ts M rng d') m)) < q"
      proof (cases d')
        case 0
        then show ?thesis using True by (simp add: count_picks_def)
      next
        case (Suc e)
        then have "e < d" using \<open>d' < Suc d\<close> by simp
        then have "int (length (count_picks (weighted_picks gs ts M rng (Suc e)) m)) < q"
          unfolding picks using d(4) by blast
        then show ?thesis by (simp only: Suc)
      qed
    qed
    have res: "weighted_loop gs ts M mq q i m rng =
        (count_picks (weighted_picks gs ts M rng (Suc d)) m, rng\<lparr>cursor := cursor rng + Suc d\<rparr>)"
      unfolding picks step d(2) by simp
    show ?thesis
      using le res early before by (intro exI [of _ "Suc d"]) blast
  qed
qed

lemma select_index_offset:
  "select_index rnd ts k = map_option (\<lambda>i. i + k) (select_index rnd ts 0)"
proof (induction ts arbitrary: k)
  case Nil
  then show ?case by simp
next
  case (Cons v vs)
  show ?case
    using Cons.IH [of "Suc k"] Cons.IH [of "Suc 0"]
    by (simp add: option.map_comp comp_def)
qed

lemma select_index_iff:
  "select_index rnd ts 0 = Some idx \<longleftrightarrow>
     idx < length ts \<and> flt rnd (ts ! idx) \<and> (\<forall>j < idx. \<not> flt rnd (ts ! j))"
proof (induction ts arbitrary: idx)
  case Nil
  then show ?case by simp
next
  case (Cons v vs)
  show ?case
  proof (cases "flt rnd v")
    case True
    show ?thesis
    proof (cases idx)
      case 0
      then show ?thesis using True by simp
    next
      case (Suc i)
      then show ?thesis using True by auto
    qed
  next
    case False
    show ?thesis
    proof (cases idx)
      case 0
      then show ?thesis
        using False select_index_offset [of rnd vs "Suc 0"] by auto
    next
      case (Suc i)
      have "select_index rnd (v # vs) 0 = Some (Suc i) \<longleftrightarrow> select_index rnd vs 0 = Some i"
        using False select_index_offset [of rnd vs "Suc 0"] by auto
      also have "\<dots> \<longleftrightarrow> i < length vs \<and> flt rnd (vs ! i) \<and> (\<forall>j < i. \<not> flt rnd (vs ! j))"
        by (rule Cons.IH)
      also have "\<dots> \<longleftrightarrow> Suc i < length (v # vs) \<and> flt rnd ((v # vs) ! Suc i)
                     \<and> (\<forall>j < Suc i. \<not> flt rnd ((v # vs) ! j))"
        using False by (auto simp: All_less_Suc2)
      finally show ?thesis by (simp only: Suc)
    qed
  qed
qed

lemma weighted_picks_snoc:
  "weighted_picks gs ts M rng (Suc d) =
     weighted_picks gs ts M rng d @
     (case select_index (fmul (Fin (float_draws rng (cursor rng + d))) M) ts 0 of
        None \<Rightarrow> [] | Some idx \<Rightarrow> [gs ! idx])"
proof (induction d arbitrary: rng)
  case 0
  then show ?case by simp
next
  case (Suc d)
  show ?case
    using Suc.IH [of "rng\<lparr>cursor := Suc (cursor rng)\<rparr>"] by simp
qed

lemma length_weighted_picks: "length (weighted_picks gs ts M rng d) \<le> d"
proof (induction d arbitrary: rng)
  case 0
  then show ?case by simp
next
  case (Suc d)
  show ?case
    using Suc.IH [of "rng\<lparr>cursor := Suc (cursor rng)\<rparr>"]
    by (simp split: option.splits)
qed

lemma length_count_picks_step:
  "length ks \<le> 1 \<Longrightarrow> length (count_picks ks m) \<le> Suc (length m)"
  by (cases ks) (auto simp: count_picks_def length_increment)

lemma count_picks_empty:
  "distinct (map fst (count_picks ks []))
   \<and> (\<forall>c \<in> snd ` set (count_picks ks []). 1 \<le> c)
   \<and> fst ` set (count_picks ks []) = set ks
   \<and> sum_list (map snd (count_picks ks [])) = int (length ks)
   \<and> (\<forall>g. map_of (count_picks ks []) g =
          (if g \<in> set ks then Some (int (count_list ks g)) else None))"
  using count_picks_props [of "[]" ks] by simp

lemma length_count_picks: "length (count_picks ks []) = card (set ks)"
proof -
  have "length (count_picks ks []) = length (map fst (count_picks ks []))" by simp
  also have "\<dots> = card (set (map fst (count_picks ks [])))"
    using count_picks_empty [of ks] by (simp only: distinct_card)
  also have "\<dots> = card (set ks)"
    using count_picks_empty [of ks] by simp
  finally show ?thesis .
qed

lemma length_prefix_sums: "length (prefix_sums gs) = length gs"
  by (simp add: prefix_sums_def)

lemma weighted_picks_givers:
  "length ts \<le> length gs \<Longrightarrow> set (weighted_picks gs ts M rng d) \<subseteq> set gs"
proof (induction d arbitrary: rng)
  case 0
  then show ?case by simp
next
  case (Suc d)
  have "gs ! idx \<in> set gs"
    if "select_index (fmul (Fin (float_draws rng (cursor rng))) M) ts 0 = Some idx" for idx
    using that Suc.prems by (simp add: select_index_iff)
  then show ?case
    using Suc.IH [OF Suc.prems, of "rng\<lparr>cursor := Suc (cursor rng)\<rparr>"]
    by (auto split: option.splits)
qed

lemma ManaBasedSampling_weighted:
  assumes "\<not> fle (fabs (total_mana gs)) toleranceTotalMana"
  shows "\<exists>d \<le> nat mq.
           ManaBasedSampling gs mq q rng =
             Inr ((count_picks (weighted_picks gs (prefix_sums gs) (total_mana gs) rng d) [],
                   total_mana gs), rng\<lparr>cursor := cursor rng + d\<rparr>)
           \<and> (d < nat mq \<longrightarrow>
                q \<le> int (card (set (weighted_picks gs (prefix_sums gs) (total_mana gs) rng d))))
           \<and> (\<forall>d' < d.
                int (card (set (weighted_picks gs (prefix_sums gs) (total_mana gs) rng d'))) < q)"
  using weighted_loop_eq [of mq 0 gs "prefix_sums gs" "total_mana gs" q "[]" rng] assms
  by (auto simp: ManaBasedSampling_def mana_totals_spec length_count_picks)

lemma ManaBasedSampling_uniform:
  assumes "fle (fabs (total_mana gs)) toleranceTotalMana"
  shows "ManaBasedSampling gs mq q rng =
          (case UniformSampling gs mq q rng of
             Inl e \<Rightarrow> Inl e
           | Inr (m, rng') \<Rightarrow> Inr ((m, Fin 0), rng'))"
  using assms by (simp add: ManaBasedSampling_def mana_totals_spec)

lemma UniformSampling_eq:
  "gs \<noteq> [] \<Longrightarrow>
     UniformSampling gs mq q rng =
       Inr (count_picks (uniform_picks gs rng (nat q)) [], rng\<lparr>cursor := cursor rng + nat q\<rparr>)"
  using uniform_loop_eq [of gs q 0 "[]" rng] by (simp add: UniformSampling_def)

text \<open>
  Claim C8. \<^verbatim>\<open>ManaBasedSampling\<close> computes \<open>M\<close> as the sum of the givers' mana, together
  with the prefix sums. If \<open>|M|\<close> is at most the tolerance, it returns what
  \<^verbatim>\<open>UniformSampling\<close> returns (its panic on an empty list included), with 0 for the total;
  on a non-empty list \<^verbatim>\<open>UniformSampling\<close> makes exactly \<open>querySampleSize\<close> draws (none when
  that is not positive) and returns the count map of the givers they pick. Otherwise it makes
  a number \<open>d\<close> of weighted draws, at most \<open>maxQuerySampleSize\<close>, and returns the count map
  of the givers they pick together with \<open>M\<close>; it stops before the cap only when the number
  of distinct picked givers has reached \<open>querySampleSize\<close>, and before each draw it makes
  that number is below \<open>querySampleSize\<close>. The count map of a sequence of picks maps a
  giver to the number of times it was picked, and a weighted draw picks the first index whose
  prefix sum exceeds it. That the draws are independent and uniform is a property of the
  generator, which is outside the model.
\<close>

theorem ManaBasedSampling_structure:
  "mana_totals opinionGivers (Fin 0) [] = (total_mana opinionGivers, prefix_sums opinionGivers)
   \<and> (fle (fabs (total_mana opinionGivers)) toleranceTotalMana \<longrightarrow>
        ManaBasedSampling opinionGivers maxQuerySampleSize querySampleSize rng =
          (case UniformSampling opinionGivers maxQuerySampleSize querySampleSize rng of
             Inl e \<Rightarrow> Inl e
           | Inr (m, rng') \<Rightarrow> Inr ((m, Fin 0), rng')))
   \<and> (opinionGivers \<noteq> [] \<longrightarrow>
        UniformSampling opinionGivers maxQuerySampleSize querySampleSize rng =
          Inr (count_picks (uniform_picks opinionGivers rng (nat querySampleSize)) [],
               rng\<lparr>cursor := cursor rng + nat querySampleSize\<rparr>))
   \<and> (\<not> fle (fabs (total_mana opinionGivers)) toleranceTotalMana \<longrightarrow>
        (\<exists>d \<le> nat maxQuerySampleSize.
           ManaBasedSampling opinionGivers maxQuerySampleSize querySampleSize rng =
             Inr ((count_picks
                     (weighted_picks opinionGivers (prefix_sums opinionGivers)
                        (total_mana opinionGivers) rng d) [],
                   total_mana opinionGivers), rng\<lparr>cursor := cursor rng + d\<rparr>)
           \<and> (d < nat maxQuerySampleSize \<longrightarrow>
                querySampleSize \<le>
                  int (card (set (weighted_picks opinionGivers (prefix_sums opinionGivers)
                                    (total_mana opinionGivers) rng d))))
           \<and> (\<forall>d' < d.
                int (card (set (weighted_picks opinionGivers (prefix_sums opinionGivers)
                                  (total_mana opinionGivers) rng d'))) < querySampleSize)))
   \<and> (\<forall>picks g. map_of (count_picks picks []) (g :: OpinionGiver) =
         (if g \<in> set picks then Some (int (count_list picks g)) else None))
   \<and> (\<forall>rnd totals idx. select_index rnd totals 0 = Some idx \<longleftrightarrow>
         idx < length totals \<and> flt rnd (totals ! idx) \<and> (\<forall>j < idx. \<not> flt rnd (totals ! j)))"
proof (intro conjI)
  show "mana_totals opinionGivers (Fin 0) [] = (total_mana opinionGivers, prefix_sums opinionGivers)"
    by (rule mana_totals_spec)
  show "fle (fabs (total_mana opinionGivers)) toleranceTotalMana \<longrightarrow>
        ManaBasedSampling opinionGivers maxQuerySampleSize querySampleSize rng =
          (case UniformSampling opinionGivers maxQuerySampleSize querySampleSize rng of
             Inl e \<Rightarrow> Inl e
           | Inr (m, rng') \<Rightarrow> Inr ((m, Fin 0), rng'))"
    by (intro impI) (rule ManaBasedSampling_uniform)
  show "opinionGivers \<noteq> [] \<longrightarrow>
        UniformSampling opinionGivers maxQuerySampleSize querySampleSize rng =
          Inr (count_picks (uniform_picks opinionGivers rng (nat querySampleSize)) [],
               rng\<lparr>cursor := cursor rng + nat querySampleSize\<rparr>)"
    by (intro impI) (rule UniformSampling_eq)
  show "\<not> fle (fabs (total_mana opinionGivers)) toleranceTotalMana \<longrightarrow>
        (\<exists>d \<le> nat maxQuerySampleSize.
           ManaBasedSampling opinionGivers maxQuerySampleSize querySampleSize rng =
             Inr ((count_picks
                     (weighted_picks opinionGivers (prefix_sums opinionGivers)
                        (total_mana opinionGivers) rng d) [],
                   total_mana opinionGivers), rng\<lparr>cursor := cursor rng + d\<rparr>)
           \<and> (d < nat maxQuerySampleSize \<longrightarrow>
                querySampleSize \<le>
                  int (card (set (weighted_picks opinionGivers (prefix_sums opinionGivers)
                                    (total_mana opinionGivers) rng d))))
           \<and> (\<forall>d' < d.
                int (card (set (weighted_picks opinionGivers (prefix_sums opinionGivers)
                                  (total_mana opinionGivers) rng d'))) < querySampleSize))"
    by (intro impI) (rule ManaBasedSampling_weighted)
  show "\<forall>picks g. map_of (count_picks picks []) (g :: OpinionGiver) =
         (if g \<in> set picks then Some (int (count_list picks g)) else None)"
    using count_picks_empty by fast
  show "\<forall>rnd totals idx. select_index rnd totals 0 = Some idx \<longleftrightarrow>
         idx < length totals \<and> flt rnd (totals ! idx) \<and> (\<forall>j < idx. \<not> flt rnd (totals ! j))"
    by (intro allI) (rule select_index_iff)
qed

theorem ManaBasedSampling_structure_witness:
  "\<not> fle (fabs (total_mana [giver_g, giver_h])) toleranceTotalMana
   \<and> ManaBasedSampling [giver_g, giver_h] 3 2 ex_rng_mixed =
       Inr (([(giver_g, 1), (giver_h, 1)], Fin 4), ex_rng_mixed\<lparr>cursor := 2\<rparr>)
   \<and> fle (fabs (total_mana [giver_p, giver_q])) toleranceTotalMana
   \<and> ManaBasedSampling [giver_p, giver_q] 5 3 ex_rng_mixed =
       Inr (([(giver_p, 2), (giver_q, 1)], Fin 0), ex_rng_mixed\<lparr>cursor := 3\<rparr>)"
proof -
  have above: "\<not> fle (fabs (total_mana [giver_g, giver_h])) toleranceTotalMana"
    by (simp add: total_mana_def giver_defs fle_def toleranceTotalMana_def)
  have below: "fle (fabs (total_mana [giver_p, giver_q])) toleranceTotalMana"
    by (simp add: total_mana_def giver_defs fle_def toleranceTotalMana_def)
  have weighted: "ManaBasedSampling [giver_g, giver_h] 3 2 ex_rng_mixed =
       Inr (([(giver_g, 1), (giver_h, 1)], Fin 4), ex_rng_mixed\<lparr>cursor := 2\<rparr>)"
    by (simp add: engine_defs giver_defs Let_def weighted_loop.simps)
  have picks: "count_picks (uniform_picks [giver_p, giver_q] ex_rng_mixed (nat 3)) []
                 = [(giver_p, 2), (giver_q, 1)]"
    by (simp add: count_picks_def increment_def giver_defs eval_nat_numeral)
  have uniform: "ManaBasedSampling [giver_p, giver_q] 5 3 ex_rng_mixed =
       Inr (([(giver_p, 2), (giver_q, 1)], Fin 0), ex_rng_mixed\<lparr>cursor := 3\<rparr>)"
    using ManaBasedSampling_structure [of "[giver_p, giver_q]" 5 3 ex_rng_mixed] below picks
    by (simp add: ex_rng_mixed_def)
  show ?thesis using above below weighted uniform by simp
qed

text \<open>
  Claim C10. For a list of givers whose total mana is above the tolerance,
  \<^verbatim>\<open>ManaBasedSampling\<close> returns a map whose keys are distinct givers of the list, each
  with a count of at least 1; it holds at most \<open>querySampleSize\<close> givers (none when that is
  negative), and the sum of its counts is at most the number of draws made, which is at most
  \<open>maxQuerySampleSize\<close> (none when that is negative).
\<close>

theorem ManaBasedSampling_counts:
  "\<not> fle (fabs (total_mana opinionGivers)) toleranceTotalMana \<longrightarrow>
     (\<exists>m rng'.
        ManaBasedSampling opinionGivers maxQuerySampleSize querySampleSize rng =
          Inr ((m, total_mana opinionGivers), rng')
        \<and> distinct (map fst m)
        \<and> (\<forall>(g, c) \<in> set m. g \<in> set opinionGivers \<and> 1 \<le> c)
        \<and> int (length m) \<le> max 0 querySampleSize
        \<and> sum_list (map snd m) \<le> int (cursor rng' - cursor rng)
        \<and> int (cursor rng' - cursor rng) \<le> max 0 maxQuerySampleSize)"
proof
  assume above: "\<not> fle (fabs (total_mana opinionGivers)) toleranceTotalMana"
  let ?picks = "weighted_picks opinionGivers (prefix_sums opinionGivers) (total_mana opinionGivers) rng"
  obtain d where d: "d \<le> nat maxQuerySampleSize"
    "ManaBasedSampling opinionGivers maxQuerySampleSize querySampleSize rng =
       Inr ((count_picks (?picks d) [], total_mana opinionGivers), rng\<lparr>cursor := cursor rng + d\<rparr>)"
    "\<forall>d' < d. int (card (set (?picks d'))) < querySampleSize"
    using ManaBasedSampling_weighted [OF above] by blast
  let ?m = "count_picks (?picks d) []"
  note props = count_picks_empty [of "?picks d"]
  have keys: "\<forall>(g, c) \<in> set ?m. g \<in> set opinionGivers \<and> 1 \<le> c"
  proof (intro ballI, clarify)
    fix g c assume gc: "(g, c) \<in> set ?m"
    then have "g \<in> fst ` set ?m" and "c \<in> snd ` set ?m" by force+
    then show "g \<in> set opinionGivers \<and> 1 \<le> c"
      using props weighted_picks_givers [of "prefix_sums opinionGivers" opinionGivers _ rng d]
      by (auto simp: length_prefix_sums)
  qed
  have len: "int (length ?m) \<le> max 0 querySampleSize"
  proof (cases d)
    case 0
    then show ?thesis by (simp add: count_picks_def)
  next
    case (Suc e)
    let ?last = "case select_index (fmul (Fin (float_draws rng (cursor rng + e)))
                     (total_mana opinionGivers)) (prefix_sums opinionGivers) 0 of
                   None \<Rightarrow> [] | Some idx \<Rightarrow> [opinionGivers ! idx]"
    have "?m = count_picks ?last (count_picks (?picks e) [])"
      by (simp only: Suc weighted_picks_snoc count_picks_append)
    moreover have "length ?last \<le> 1" by (simp split: option.splits)
    ultimately have "length ?m \<le> Suc (length (count_picks (?picks e) []))"
      using length_count_picks_step [of ?last "count_picks (?picks e) []"] by simp
    moreover have "int (length (count_picks (?picks e) [])) < querySampleSize"
      using d(3) Suc by (simp add: length_count_picks)
    ultimately show ?thesis by linarith
  qed
  have sum: "sum_list (map snd ?m) \<le> int d"
    using props length_weighted_picks [of opinionGivers _ _ rng d] by simp
  show "\<exists>m rng'.
        ManaBasedSampling opinionGivers maxQuerySampleSize querySampleSize rng =
          Inr ((m, total_mana opinionGivers), rng')
        \<and> distinct (map fst m)
        \<and> (\<forall>(g, c) \<in> set m. g \<in> set opinionGivers \<and> 1 \<le> c)
        \<and> int (length m) \<le> max 0 querySampleSize
        \<and> sum_list (map snd m) \<le> int (cursor rng' - cursor rng)
        \<and> int (cursor rng' - cursor rng) \<le> max 0 maxQuerySampleSize"
    using d(1,2) props keys len sum
    by (intro exI [of _ ?m] exI [of _ "rng\<lparr>cursor := cursor rng + d\<rparr>"]) simp
qed

theorem ManaBasedSampling_counts_witness:
  "\<not> fle (fabs (total_mana [giver_g, giver_h])) toleranceTotalMana
   \<and> ManaBasedSampling [giver_g, giver_h] 3 2 ex_rng =
       Inr (([(giver_h, 3)], Fin 4), ex_rng\<lparr>cursor := 3\<rparr>)"
proof -
  have above: "\<not> fle (fabs (total_mana [giver_g, giver_h])) toleranceTotalMana"
    by (simp add: total_mana_def giver_defs fle_def toleranceTotalMana_def)
  have run: "ManaBasedSampling [giver_g, giver_h] 3 2 ex_rng =
       Inr (([(giver_h, 3)], Fin 4), ex_rng\<lparr>cursor := 3\<rparr>)"
    by (simp add: engine_defs giver_defs Let_def weighted_loop.simps)
  show ?thesis
    using ManaBasedSampling_counts [of "[giver_g, giver_h]" 3 2 ex_rng] above run by simp
qed

end
